theory Spec2Isabelle
  imports Main
begin

section \<open>Data model\<close>

text \<open>
  The structs of \<^verbatim>\<open>resource_aws_iam_credential_report.go\<close>. A Go slice is modelled by
  the sequence of its elements; every row of a report is a separate allocation
  (\<^verbatim>\<open>&ReportRow{...}\<close>), so a report is the list of its rows.
\<close>

record AccessKey =
  Active :: bool
  LastUsedDate :: string
  LastRotated :: string

record ReportRow =
  User :: string
  PasswordEnabled :: bool
  PasswordLastUsed :: string
  PasswordLastChanged :: string
  MfaActive :: bool
  MfaVirtual :: bool
  AccessKeys :: "AccessKey list"

type_synonym CredentialReport = "ReportRow list"

section \<open>The CSV reader\<close>

text \<open>
  Modelled from the spec: the CSV reader is \<^verbatim>\<open>encoding/csv\<close> of Go's standard library,
  which is not among the source files. The spec (4.3) has ragged rows and invalid
  quoting fail the parse; the definitions follow the library's record reader under the
  settings \<^verbatim>\<open>csv.NewReader\<close> gives: comma as separator, no comment character, strict
  quotes, no trimming, and \<^verbatim>\<open>FieldsPerRecord = 0\<close> (the first record fixes the number of
  fields of all later ones).
\<close>

datatype csv_error = EOF | ErrBareQuote | ErrQuote | ErrFieldCount

abbreviation NL :: char where "NL \<equiv> CHR 0x0A"
abbreviation CR :: char where "CR \<equiv> CHR 0x0D"
abbreviation Quote :: char where "Quote \<equiv> CHR 0x22"
abbreviation Comma :: char where "Comma \<equiv> CHR 0x2C"

definition lengthNL :: "string \<Rightarrow> nat" where
  "lengthNL b = (if b \<noteq> [] \<and> last b = NL then 1 else 0)"

text \<open>
  \<^verbatim>\<open>i := bytes.IndexByte(line, c)\<close> with the slices \<^verbatim>\<open>line[:i]\<close> and \<^verbatim>\<open>line[i+1:]\<close>:
  the text before the first \<open>c\<close> and the text after it, \<open>None\<close> when \<open>c\<close> does not occur
  (\<^verbatim>\<open>i < 0\<close>).
\<close>

fun cut :: "char \<Rightarrow> string \<Rightarrow> (string \<times> string) option" where
  "cut c [] = None"
| "cut c (x # xs) =
     (if x = c then Some ([], xs)
      else (case cut c xs of None \<Rightarrow> None | Some (a, b) \<Rightarrow> Some (x # a, b)))"

text \<open>
  \<^verbatim>\<open>readLine\<close>: the next line with its newline, \<^verbatim>\<open>\r\n\<close> normalised to \<^verbatim>\<open>\n\<close>; a
  last line without newline loses a trailing \<^verbatim>\<open>\r\<close>. \<open>None\<close> is \<^verbatim>\<open>io.EOF\<close>.
\<close>

definition readLine :: "string \<Rightarrow> (string \<times> string) option" where
  "readLine inp =
     (if inp = [] then None
      else
        (case cut NL inp of
           None \<Rightarrow> Some (if last inp = CR then butlast inp else inp, [])
         | Some (body, rest) \<Rightarrow>
             Some ((if body \<noteq> [] \<and> last body = CR then butlast body else body) @ [NL],
                   rest)))"

lemma cut_Some: "cut c s = Some (a, b) \<Longrightarrow> s = a @ c # b \<and> c \<notin> set a"
  by (induction s arbitrary: a) (auto split: if_splits option.splits)

lemma cut_None: "cut c s = None \<longleftrightarrow> c \<notin> set s"
  by (induction s) (auto split: option.splits)

lemma cut_append: "c \<notin> set a \<Longrightarrow> cut c (a @ c # b) = Some (a, b)"
  by (induction a) auto

lemma cut_length: "cut c s = Some (a, b) \<Longrightarrow> length a + length b < length s"
  by (drule cut_Some) simp

lemma readLine_length:
  assumes "readLine inp = Some (line, rest)"
  shows "length line + length rest \<le> length inp"
proof (cases "cut NL inp")
  case None
  with assms show ?thesis
    by (auto simp: readLine_def split: if_splits)
next
  case (Some p)
  obtain body rest' where p: "p = (body, rest')" by (cases p)
  from Some p have "length body + length rest' < length inp" by (simp add: cut_length)
  with assms Some p show ?thesis
    by (auto simp: readLine_def split: if_splits)
qed

lemma readLine_shorter:
  assumes "readLine inp = Some (line, rest)"
  shows "length rest < length inp"
proof (cases "cut NL inp")
  case None
  with assms show ?thesis
    by (auto simp: readLine_def split: if_splits)
next
  case (Some p)
  obtain body rest' where p: "p = (body, rest')" by (cases p)
  from Some p have "length body + length rest' < length inp" by (simp add: cut_length)
  with assms Some p show ?thesis
    by (auto simp: readLine_def split: if_splits)
qed

text \<open>
  The field loop of \<^verbatim>\<open>readRecord\<close> (label \<^verbatim>\<open>parseField\<close>) and its inner loop over a
  quoted field, which may run over several lines. Both return the record read, or the
  error, together with the input that is left.
\<close>

function parseField :: "string \<Rightarrow> string \<Rightarrow> string list \<Rightarrow> (csv_error + string list) \<times> string"
  and parseQuoted :: "string \<Rightarrow> string \<Rightarrow> string \<Rightarrow> string list \<Rightarrow> (csv_error + string list) \<times> string"
where
  "parseField line rest acc =
     (if line = [] \<or> hd line \<noteq> Quote then
        (case cut Comma line of
           Some (field, line') \<Rightarrow>
             if Quote \<in> set field then (Inl ErrBareQuote, rest)
             else parseField line' rest (acc @ [field])
         | None \<Rightarrow>
             (let field = take (length line - lengthNL line) line in
              if Quote \<in> set field then (Inl ErrBareQuote, rest)
              else (Inr (acc @ [field]), rest)))
      else parseQuoted (tl line) rest [] acc)"
| "parseQuoted line rest buf acc =
     (case cut Quote line of
        Some (pre, line') \<Rightarrow>
          if line' \<noteq> [] \<and> hd line' = Quote then
            parseQuoted (tl line') rest (buf @ pre @ [Quote]) acc
          else if line' \<noteq> [] \<and> hd line' = Comma then
            parseField (tl line') rest (acc @ [buf @ pre])
          else if lengthNL line' = length line' then (Inr (acc @ [buf @ pre]), rest)
          else (Inl ErrQuote, rest)
      | None \<Rightarrow>
          if line \<noteq> [] then
            (case readLine rest of
               None \<Rightarrow> (Inl ErrQuote, [])
             | Some (line', rest') \<Rightarrow> parseQuoted line' rest' (buf @ line) acc)
          else (Inl ErrQuote, rest))"
  by pat_completeness auto
termination
proof (relation "measure (\<lambda>x. case x of
          Inl (line, rest, acc) \<Rightarrow> length line + length rest
        | Inr (line, rest, buf, acc) \<Rightarrow> length line + length rest)", goal_cases)
  case 1
  show ?case by simp
next
  case (2 line rest acc x2 field line')
  then show ?case using cut_length[of Comma line field line'] by simp
next
  case (3 line rest acc)
  then show ?case by (cases line) auto
next
  case (4 line rest buf acc x2 line' rest')
  then show ?case using readLine_length[of rest line' rest'] by (cases line) auto
next
  case (5 line rest buf acc x2 pre line')
  then show ?case using cut_length[of Quote line pre line'] by (cases line') auto
next
  case (6 line rest buf acc x2 pre line')
  then show ?case using cut_length[of Quote line pre line'] by (cases line') auto
qed

declare parseField.simps [simp del] parseQuoted.simps [simp del]

text \<open>
  \<^verbatim>\<open>readRecord\<close>: empty lines are skipped, the end of the input is \<^verbatim>\<open>io.EOF\<close>, any
  other line is split into its fields.
\<close>

function readRecord :: "string \<Rightarrow> (csv_error + string list) \<times> string" where
  "readRecord inp =
     (case readLine inp of
        None \<Rightarrow> (Inl EOF, [])
      | Some (line, rest) \<Rightarrow>
          if length line = lengthNL line then readRecord rest
          else parseField line rest [])"
  by pat_completeness auto
termination
  by (relation "measure length") (auto dest: readLine_shorter)

declare readRecord.simps [simp del]

record Reader =
  unread :: string
  FieldsPerRecord :: int

definition csv_NewReader :: "string \<Rightarrow> Reader" where
  "csv_NewReader content = \<lparr>unread = content, FieldsPerRecord = 0\<rparr>"

text \<open>
  \<^verbatim>\<open>Read\<close>: one record, checked against \<^verbatim>\<open>FieldsPerRecord\<close>; with
  \<^verbatim>\<open>FieldsPerRecord = 0\<close> the record sets it. A reader that has returned an error is not
  used again by the program, so an error carries no reader.
\<close>

definition csv_Read :: "Reader \<Rightarrow> csv_error + (string list \<times> Reader)" where
  "csv_Read r =
     (case readRecord (unread r) of
        (Inl e, rest) \<Rightarrow> Inl e
      | (Inr record, rest) \<Rightarrow>
          if FieldsPerRecord r > 0 then
            (if int (length record) \<noteq> FieldsPerRecord r then Inl ErrFieldCount
             else Inr (record, r\<lparr>unread := rest\<rparr>))
          else if FieldsPerRecord r = 0 then
            Inr (record, r\<lparr>unread := rest, FieldsPerRecord := int (length record)\<rparr>)
          else Inr (record, r\<lparr>unread := rest\<rparr>))"

lemma parse_rest_le:
  "parseField line rest acc = (res, rest') \<Longrightarrow>
     length rest' \<le> length rest \<and> (\<forall>record. res = Inr record \<longrightarrow> length acc < length record)"
  "parseQuoted line rest buf acc = (res, rest') \<Longrightarrow>
     length rest' \<le> length rest \<and> (\<forall>record. res = Inr record \<longrightarrow> length acc < length record)"
proof (induction line rest acc and line rest buf acc arbitrary: res rest' and res rest'
    rule: parseField_parseQuoted.induct)
  case (1 line rest acc)
  show ?case
  proof (cases "line = [] \<or> hd line \<noteq> Quote")
    case plain: True
    show ?thesis
    proof (cases "cut Comma line")
      case None
      with plain "1.prems" show ?thesis
        by (auto simp: parseField.simps[of line rest acc] Let_def split: if_splits)
    next
      case (Some p)
      obtain field line' where p: "p = (field, line')" by (cases p)
      show ?thesis
      proof (cases "Quote \<in> set field")
        case True
        with plain Some p "1.prems" show ?thesis
          by (auto simp: parseField.simps[of line rest acc])
      next
        case False
        with plain Some p "1.prems"
        have "parseField line' rest (acc @ [field]) = (res, rest')"
          by (auto simp: parseField.simps[of line rest acc])
        from "1.IH"(1)[OF plain Some[unfolded p] refl False this] show ?thesis
          by auto
      qed
    qed
  next
    case quoted: False
    with "1.prems" have "parseQuoted (tl line) rest [] acc = (res, rest')"
      by (auto simp: parseField.simps[of line rest acc])
    from "1.IH"(2)[OF quoted this] show ?thesis .
  qed
next
  case (2 line rest buf acc)
  show ?case
  proof (cases "cut Quote line")
    case None
    show ?thesis
    proof (cases "line = []")
      case True
      with None "2.prems" show ?thesis
        by (auto simp: parseQuoted.simps[of "[]" rest buf acc])
    next
      case ne: False
      show ?thesis
      proof (cases "readLine rest")
        case None': None
        with None ne "2.prems" show ?thesis
          by (auto simp: parseQuoted.simps[of line rest buf acc])
      next
        case (Some p)
        obtain line' rest'' where p: "p = (line', rest'')" by (cases p)
        with None ne Some "2.prems"
        have "parseQuoted line' rest'' (buf @ line) acc = (res, rest')"
          by (auto simp: parseQuoted.simps[of line rest buf acc])
        from "2.IH"(1)[OF None ne Some[unfolded p] refl this]
          readLine_shorter[OF Some[unfolded p]]
        show ?thesis by auto
      qed
    qed
  next
    case (Some p)
    obtain pre line' where p: "p = (pre, line')" by (cases p)
    consider (dq) "line' \<noteq> [] \<and> hd line' = Quote"
      | (comma) "\<not> (line' \<noteq> [] \<and> hd line' = Quote)" "line' \<noteq> [] \<and> hd line' = Comma"
      | (other) "\<not> (line' \<noteq> [] \<and> hd line' = Quote)" "\<not> (line' \<noteq> [] \<and> hd line' = Comma)"
      by blast
    then show ?thesis
    proof cases
      case dq
      with Some p "2.prems"
      have "parseQuoted (tl line') rest (buf @ pre @ [Quote]) acc = (res, rest')"
        by (auto simp: parseQuoted.simps[of line rest buf acc])
      from "2.IH"(2)[OF Some[unfolded p] refl dq this] show ?thesis .
    next
      case comma
      with Some p "2.prems"
      have "parseField (tl line') rest (acc @ [buf @ pre]) = (res, rest')"
        by (auto simp: parseQuoted.simps[of line rest buf acc])
      from "2.IH"(3)[OF Some[unfolded p] refl comma this] show ?thesis by auto
    next
      case other
      with Some p "2.prems" show ?thesis
        by (auto simp: parseQuoted.simps[of line rest buf acc] split: if_splits)
    qed
  qed
qed

lemma readRecord_shorter:
  "readRecord inp = (Inr record, rest) \<Longrightarrow> length rest < length inp \<and> record \<noteq> []"
proof (induction inp rule: readRecord.induct)
  case (1 inp)
  show ?case
  proof (cases "readLine inp")
    case None
    with "1.prems" show ?thesis by (simp add: readRecord.simps[of inp])
  next
    case (Some p)
    obtain line rest0 where p: "p = (line, rest0)" by (cases p)
    note rl = Some[unfolded p]
    show ?thesis
    proof (cases "length line = lengthNL line")
      case True
      with rl "1.prems" have "readRecord rest0 = (Inr record, rest)"
        by (simp add: readRecord.simps[of inp])
      from "1.IH"[OF rl refl True this] readLine_shorter[OF rl] show ?thesis by simp
    next
      case False
      with rl "1.prems" have "parseField line rest0 [] = (Inr record, rest)"
        by (simp add: readRecord.simps[of inp])
      from parse_rest_le(1)[OF this] readLine_shorter[OF rl] show ?thesis by auto
    qed
  qed
qed

lemma csv_Read_shorter:
  assumes "csv_Read r = Inr (record, r')"
  shows "length (unread r') < length (unread r)"
proof -
  obtain res rest where rr: "readRecord (unread r) = (res, rest)"
    by (cases "readRecord (unread r)")
  with assms obtain record0 where res: "res = Inr record0"
    by (cases res) (auto simp: csv_Read_def)
  from assms rr res have "unread r' = rest"
    by (auto simp: csv_Read_def split: if_splits)
  with readRecord_shorter[OF rr[unfolded res]] show ?thesis by simp
qed

text \<open>
  \<^verbatim>\<open>ReadAll\<close>: records until \<^verbatim>\<open>io.EOF\<close>, which ends the loop without error; any other
  error is returned in place of the records.
\<close>

function csv_ReadAll_loop :: "Reader \<Rightarrow> string list list \<Rightarrow> csv_error + string list list" where
  "csv_ReadAll_loop r records =
     (case csv_Read r of
        Inl err \<Rightarrow> if err = EOF then Inr records else Inl err
      | Inr (record, r') \<Rightarrow> csv_ReadAll_loop r' (records @ [record]))"
  by pat_completeness auto
termination
  by (relation "measure (\<lambda>(r, records). length (unread r))") (auto dest: csv_Read_shorter)

declare csv_ReadAll_loop.simps [simp del]

definition csv_ReadAll :: "Reader \<Rightarrow> csv_error + string list list" where
  "csv_ReadAll r = csv_ReadAll_loop r []"

section \<open>Parsing the credential report\<close>

text \<open>
  Errors are values. \<open>AwsError code message\<close> is an \<^verbatim>\<open>awserr.Error\<close>, \<open>PlainError\<close> any
  other error of the service client, \<open>CsvError\<close> an error of the CSV reader.
  \<open>IndexOutOfRange\<close> is Go's run-time panic on \<^verbatim>\<open>line[i]\<close> with \<open>i\<close> beyond the slice: it
  ends the computation where it is raised. \<open>TimeoutError\<close> is the failure of
  \<^verbatim>\<open>resource.Retry\<close> when its timeout is used up.
\<close>

datatype error =
    AwsError string string
  | PlainError string
  | CsvError csv_error
  | TimeoutError
  | IndexOutOfRange

definition bindE :: "error + 'a \<Rightarrow> ('a \<Rightarrow> error + 'b) \<Rightarrow> error + 'b" where
  "bindE m f = (case m of Inl e \<Rightarrow> Inl e | Inr x \<Rightarrow> f x)"

lemma bindE_simps [simp]:
  "bindE (Inl e) f = Inl e"
  "bindE (Inr x) f = f x"
  by (simp_all add: bindE_def)

definition parseCsvBool :: "string \<Rightarrow> bool" where
  "parseCsvBool csv = (csv = ''true'')"

text \<open>
  The header map: \<^verbatim>\<open>for i, k := range headerLine { header[k] = i }\<close>. Reading a Go map
  at a key it does not hold gives the zero value, here the index 0.
\<close>

fun header_loop :: "nat \<Rightarrow> string list \<Rightarrow> (string \<rightharpoonup> nat) \<Rightarrow> (string \<rightharpoonup> nat)" where
  "header_loop i [] header = header"
| "header_loop i (k # ks) header = header_loop (Suc i) ks (header(k \<mapsto> i))"

definition header_index :: "(string \<rightharpoonup> nat) \<Rightarrow> string \<Rightarrow> nat" where
  "header_index header c = (case header c of None \<Rightarrow> 0 | Some i \<Rightarrow> i)"

text \<open>\<^verbatim>\<open>line[header[c]]\<close>, with the panic of an index out of range.\<close>

definition column :: "(string \<rightharpoonup> nat) \<Rightarrow> string list \<Rightarrow> string \<Rightarrow> error + string" where
  "column header line c =
     (let i = header_index header c in
      if i < length line then Inr (line ! i) else Inl IndexOutOfRange)"

text \<open>The body of the loop over the lines: one \<^verbatim>\<open>ReportRow\<close> from one record.\<close>

definition reportRow :: "(string \<rightharpoonup> nat) \<Rightarrow> string list \<Rightarrow> error + ReportRow" where
  "reportRow header line =
     bindE (column header line ''user'') (\<lambda>user.
     bindE (column header line ''password_enabled'') (\<lambda>password_enabled.
     bindE (column header line ''password_last_used'') (\<lambda>password_last_used.
     bindE (column header line ''password_last_changed'') (\<lambda>password_last_changed.
     bindE (column header line ''mfa_active'') (\<lambda>mfa_active.
     bindE (column header line ''access_key_1_active'') (\<lambda>access_key_1_active.
     bindE (column header line ''access_key_1_last_used_date'') (\<lambda>access_key_1_last_used_date.
     bindE (column header line ''access_key_1_last_rotated'') (\<lambda>access_key_1_last_rotated.
     bindE (column header line ''access_key_2_active'') (\<lambda>access_key_2_active.
     bindE (column header line ''access_key_2_last_used_date'') (\<lambda>access_key_2_last_used_date.
     bindE (column header line ''access_key_2_last_rotated'') (\<lambda>access_key_2_last_rotated.
       Inr \<lparr>User = user,
            PasswordEnabled = parseCsvBool password_enabled,
            PasswordLastUsed = password_last_used,
            PasswordLastChanged = password_last_changed,
            MfaActive = parseCsvBool mfa_active,
            MfaVirtual = False,
            AccessKeys =
              [\<lparr>Active = parseCsvBool access_key_1_active,
                LastUsedDate = access_key_1_last_used_date,
                LastRotated = access_key_1_last_rotated\<rparr>,
               \<lparr>Active = parseCsvBool access_key_2_active,
                LastUsedDate = access_key_2_last_used_date,
                LastRotated = access_key_2_last_rotated\<rparr>]\<rparr>)))))))))))"

text \<open>
  \<^verbatim>\<open>for i, line := range lines { rows[i] = &ReportRow{...} }\<close>: the rows in the order of
  the lines.
\<close>

fun rows_loop :: "(string \<rightharpoonup> nat) \<Rightarrow> string list list \<Rightarrow> error + CredentialReport" where
  "rows_loop header [] = Inr []"
| "rows_loop header (line # lines) =
     bindE (reportRow header line) (\<lambda>row.
     bindE (rows_loop header lines) (\<lambda>rows. Inr (row # rows)))"

definition parseCsvCredentialReport :: "string \<Rightarrow> error + CredentialReport" where
  "parseCsvCredentialReport content =
     (case csv_Read (csv_NewReader content) of
        Inl err \<Rightarrow> Inl (CsvError err)
      | Inr (headerLine, reader) \<Rightarrow>
          (let header = header_loop 0 headerLine Map.empty in
           case csv_ReadAll reader of
             Inl err \<Rightarrow> Inl (CsvError err)
           | Inr lines \<Rightarrow> rows_loop header lines))"

section \<open>Virtual MFA devices\<close>

text \<open>
  The serial numbers are matched against the regular expression
  \<^verbatim>\<open>^arn:aws:iam::[0-9]+:mfa/(.*)$\<close>. The expression is anchored at both ends, the digits
  end where \<^verbatim>\<open>:mfa/\<close> begins, and \<^verbatim>\<open>.\<close> matches every character but the newline, so there
  is at most one way to match. \<^verbatim>\<open>FindStringSubmatch\<close> returns the whole match followed
  by the text of the group, or \<^verbatim>\<open>nil\<close> (\<open>None\<close>).
\<close>

definition isDigit :: "char \<Rightarrow> bool" where
  "isDigit c = (c \<in> set ''0123456789'')"

definition strip_prefix :: "string \<Rightarrow> string \<Rightarrow> string option" where
  "strip_prefix p s = (if take (length p) s = p then Some (drop (length p) s) else None)"

definition serial_FindStringSubmatch :: "string \<Rightarrow> string list option" where
  "serial_FindStringSubmatch s =
     (case strip_prefix ''arn:aws:iam::'' s of
        None \<Rightarrow> None
      | Some s1 \<Rightarrow>
          if takeWhile isDigit s1 = [] then None
          else
            (case strip_prefix '':mfa/'' (dropWhile isDigit s1) of
               None \<Rightarrow> None
             | Some name \<Rightarrow> if NL \<in> set name then None else Some [s, name]))"

text \<open>The loop over the devices, which fills \<^verbatim>\<open>accountsWithVirtualMfa\<close>.\<close>

fun mfa_loop :: "string list \<Rightarrow> (string \<rightharpoonup> bool) \<Rightarrow> (string \<rightharpoonup> bool)" where
  "mfa_loop [] accountsWithVirtualMfa = accountsWithVirtualMfa"
| "mfa_loop (serialNumber # devices) accountsWithVirtualMfa =
     (case serial_FindStringSubmatch serialNumber of
        None \<Rightarrow> mfa_loop devices accountsWithVirtualMfa
      | Some match \<Rightarrow>
          if length match > 1 then
            (let accountName = match ! 1;
                 accountName' =
                   (if accountName = ''root-account-mfa-device'' then ''<root_account>''
                    else accountName)
             in mfa_loop devices (accountsWithVirtualMfa(accountName' \<mapsto> True)))
          else mfa_loop devices accountsWithVirtualMfa)"

text \<open>
  The loop that extends the report: \<^verbatim>\<open>row\<close> is a pointer, so the assignment changes the
  row of the report.
\<close>

fun extend_loop :: "(string \<rightharpoonup> bool) \<Rightarrow> CredentialReport \<Rightarrow> CredentialReport" where
  "extend_loop accountsWithVirtualMfa [] = []"
| "extend_loop accountsWithVirtualMfa (row # report) =
     (case accountsWithVirtualMfa (User row) of
        Some ok \<Rightarrow> row\<lparr>MfaVirtual := True\<rparr>
      | None \<Rightarrow> row) # extend_loop accountsWithVirtualMfa report"

section \<open>Flattening\<close>

text \<open>
  A value of type \<^verbatim>\<open>interface{}\<close> as the flattening produces it: a string, a bool, or a
  list of string-keyed maps. A map literal is the association list of its entries.
\<close>

datatype val = VString string | VBool bool | VList "(string \<times> val) list list"

type_synonym flatmap = "(string \<times> val) list"

fun flattenAccessKeys_loop :: "AccessKey list \<Rightarrow> flatmap list \<Rightarrow> flatmap list" where
  "flattenAccessKeys_loop [] out = out"
| "flattenAccessKeys_loop (accessKey # accessKeys) out =
     flattenAccessKeys_loop accessKeys
       (out @ [[(''active'', VBool (Active accessKey)),
                (''last_used_date'', VString (LastUsedDate accessKey)),
                (''last_rotated'', VString (LastRotated accessKey))]])"

definition flattenAccessKeys :: "AccessKey list \<Rightarrow> flatmap list" where
  "flattenAccessKeys accessKeys = flattenAccessKeys_loop accessKeys []"

fun flattenCredentialReport_loop :: "CredentialReport \<Rightarrow> flatmap list \<Rightarrow> flatmap list" where
  "flattenCredentialReport_loop [] out = out"
| "flattenCredentialReport_loop (row # report) out =
     flattenCredentialReport_loop report
       (out @ [[(''user'', VString (User row)),
                (''password_enabled'', VBool (PasswordEnabled row)),
                (''password_last_used'', VString (PasswordLastUsed row)),
                (''password_last_changed'', VString (PasswordLastChanged row)),
                (''mfa_active'', VBool (MfaActive row)),
                (''mfa_virtual'', VBool (MfaVirtual row)),
                (''access_keys'', VList (flattenAccessKeys (AccessKeys row)))]])"

definition flattenCredentialReport :: "CredentialReport \<Rightarrow> flatmap list" where
  "flattenCredentialReport report = flattenCredentialReport_loop report []"

section \<open>The operations of the resource\<close>

text \<open>
  The IAM connection is a script of the answers of the service: one to
  \<^verbatim>\<open>GenerateCredentialReport\<close>, one to each call of \<^verbatim>\<open>GetCredentialReport\<close> (numbered from
  0), one to \<^verbatim>\<open>ListVirtualMFADevices\<close> (the devices, each given by its serial number,
  which the service always sets).
\<close>

record iamconn =
  GenerateCredentialReport :: "error option"
  GetCredentialReport :: "nat \<Rightarrow> error + string"
  ListVirtualMFADevices :: "error + string list"

text \<open>
  What an operation does beyond returning: the calls to the service and the writes to
  the resource data, in the order they happen.
\<close>

datatype event =
    Call_GenerateCredentialReport
  | Call_GetCredentialReport
  | Call_ListVirtualMFADevices
  | SetId string
  | Set_report "flatmap list"

text \<open>
  The resource data \<^verbatim>\<open>d\<close> (its id and its field \<^verbatim>\<open>report\<close>, \<open>None\<close> while unset)
  and the trace of the events so far.
\<close>

record state =
  d_id :: string
  d_report :: "flatmap list option"
  trace :: "event list"

definition emit :: "event \<Rightarrow> state \<Rightarrow> state" where
  "emit e s = s\<lparr>trace := trace s @ [e]\<rparr>"

definition get_calls :: "state \<Rightarrow> nat" where
  "get_calls s = length (filter (\<lambda>e. e = Call_GetCredentialReport) (trace s))"

datatype RetryError = RetryableError error | NonRetryableError error

text \<open>
  Modelled from the spec: \<^verbatim>\<open>resource.Retry\<close> of the Terraform SDK (\<^verbatim>\<open>helper/resource\<close>) is
  not among the source files. The spec (4.2, 7) has the attempt repeated while it reports
  a retryable error, bounded by the timeout; a non-retryable error ends the read with
  that error, and the exhausted timeout ends it with a timeout failure. The timeout is
  the number of attempts that fit into it.
\<close>

fun Retry :: "nat \<Rightarrow> (state \<Rightarrow> RetryError option \<times> state) \<Rightarrow> state \<Rightarrow> error option \<times> state" where
  "Retry 0 f s = (Some TimeoutError, s)"
| "Retry (Suc timeout) f s =
     (case f s of
        (None, s') \<Rightarrow> (None, s')
      | (Some (RetryableError err), s') \<Rightarrow> Retry timeout f s'
      | (Some (NonRetryableError err), s') \<Rightarrow> (Some err, s'))"

text \<open>
  The function passed to \<^verbatim>\<open>resource.Retry\<close>: one attempt to get, parse, extend and
  store the report. The panic of the parser has no error value in Go; here it ends the
  attempt as an error that is not retried. The log line has no part in the result and
  is left out.
\<close>

definition attempt :: "iamconn \<Rightarrow> state \<Rightarrow> RetryError option \<times> state" where
  "attempt iamconn s =
     (let s1 = emit Call_GetCredentialReport s in
      case GetCredentialReport iamconn (get_calls s) of
        Inl err \<Rightarrow>
          (case err of
             AwsError code message \<Rightarrow>
               if code = ''ReportInProgress'' then (Some (RetryableError err), s1)
               else (Some (NonRetryableError err), s1)
           | _ \<Rightarrow> (Some (NonRetryableError err), s1))
      | Inr content \<Rightarrow>
          (case parseCsvCredentialReport content of
             Inl err \<Rightarrow> (Some (NonRetryableError err), s1)
           | Inr report \<Rightarrow>
               (let s2 = emit Call_ListVirtualMFADevices s1 in
                case ListVirtualMFADevices iamconn of
                  Inl err \<Rightarrow> (Some (NonRetryableError err), s2)
                | Inr devices \<Rightarrow>
                    (let accountsWithVirtualMfa = mfa_loop devices Map.empty;
                         report' = extend_loop accountsWithVirtualMfa report;
                         flat = flattenCredentialReport report'
                     in (None, (emit (Set_report flat) s2)\<lparr>d_report := Some flat\<rparr>)))))"

text \<open>
  The operations take the connection, the timeout of \<^verbatim>\<open>resource.Retry\<close> as the number
  of attempts that fit into the minute, and the state.
\<close>

definition resourceAwsIamCredentialReportRead ::
  "iamconn \<Rightarrow> nat \<Rightarrow> state \<Rightarrow> error option \<times> state" where
  "resourceAwsIamCredentialReportRead iamconn timeout s =
     (let s1 = emit Call_GenerateCredentialReport s in
      case GenerateCredentialReport iamconn of
        Some err \<Rightarrow> (Some err, s1)
      | None \<Rightarrow> Retry timeout (attempt iamconn) s1)"

definition resourceAwsIamCredentialReportUpdate ::
  "iamconn \<Rightarrow> nat \<Rightarrow> state \<Rightarrow> error option \<times> state" where
  "resourceAwsIamCredentialReportUpdate iamconn timeout s =
     resourceAwsIamCredentialReportRead iamconn timeout
       ((emit (SetId ''iam-credential-report'') s)\<lparr>d_id := ''iam-credential-report''\<rparr>)"

definition resourceAwsIamCredentialReportDelete ::
  "iamconn \<Rightarrow> nat \<Rightarrow> state \<Rightarrow> error option \<times> state" where
  "resourceAwsIamCredentialReportDelete iamconn timeout s = (None, s)"

record Resource =
  Create :: "iamconn \<Rightarrow> nat \<Rightarrow> state \<Rightarrow> error option \<times> state"
  Read :: "iamconn \<Rightarrow> nat \<Rightarrow> state \<Rightarrow> error option \<times> state"
  Update :: "iamconn \<Rightarrow> nat \<Rightarrow> state \<Rightarrow> error option \<times> state"
  Delete :: "iamconn \<Rightarrow> nat \<Rightarrow> state \<Rightarrow> error option \<times> state"

definition resourceAwsIamCredentialReport :: Resource where
  "resourceAwsIamCredentialReport =
     \<lparr>Create = resourceAwsIamCredentialReportUpdate,
      Read = resourceAwsIamCredentialReportRead,
      Update = resourceAwsIamCredentialReportUpdate,
      Delete = resourceAwsIamCredentialReportDelete\<rparr>"

section \<open>Reading a flattened report back\<close>

text \<open>
  The inverse mapping of the round trip of the spec (section 8): every field is read
  back from its key, with the type the flattening gave it. The source has no such
  function; it is the reader the flattened value is written for.
\<close>

definition getString :: "flatmap \<Rightarrow> string \<Rightarrow> string option" where
  "getString m k = (case map_of m k of Some (VString s) \<Rightarrow> Some s | _ \<Rightarrow> None)"

definition getBool :: "flatmap \<Rightarrow> string \<Rightarrow> bool option" where
  "getBool m k = (case map_of m k of Some (VBool b) \<Rightarrow> Some b | _ \<Rightarrow> None)"

definition getList :: "flatmap \<Rightarrow> string \<Rightarrow> flatmap list option" where
  "getList m k = (case map_of m k of Some (VList l) \<Rightarrow> Some l | _ \<Rightarrow> None)"

definition readAccessKey :: "flatmap \<Rightarrow> AccessKey option" where
  "readAccessKey m =
     (case (getBool m ''active'', getString m ''last_used_date'', getString m ''last_rotated'') of
        (Some a, Some u, Some r) \<Rightarrow> Some \<lparr>Active = a, LastUsedDate = u, LastRotated = r\<rparr>
      | _ \<Rightarrow> None)"

fun readAll :: "('a \<Rightarrow> 'b option) \<Rightarrow> 'a list \<Rightarrow> 'b list option" where
  "readAll f [] = Some []"
| "readAll f (x # xs) =
     (case f x of
        None \<Rightarrow> None
      | Some y \<Rightarrow> (case readAll f xs of None \<Rightarrow> None | Some ys \<Rightarrow> Some (y # ys)))"

definition readReportRow :: "flatmap \<Rightarrow> ReportRow option" where
  "readReportRow m =
     (case (getString m ''user'', getBool m ''password_enabled'',
            getString m ''password_last_used'', getString m ''password_last_changed'',
            getBool m ''mfa_active'', getBool m ''mfa_virtual'', getList m ''access_keys'') of
        (Some u, Some pe, Some plu, Some plc, Some ma, Some mv, Some ks) \<Rightarrow>
          (case readAll readAccessKey ks of
             None \<Rightarrow> None
           | Some keys \<Rightarrow>
               Some \<lparr>User = u, PasswordEnabled = pe, PasswordLastUsed = plu,
                     PasswordLastChanged = plc, MfaActive = ma, MfaVirtual = mv,
                     AccessKeys = keys\<rparr>)
      | _ \<Rightarrow> None)"

definition readCredentialReport :: "flatmap list \<Rightarrow> CredentialReport option" where
  "readCredentialReport ms = readAll readReportRow ms"

text \<open>The map the flattening builds for one access key, and for one row.\<close>

definition flatAccessKey :: "AccessKey \<Rightarrow> flatmap" where
  "flatAccessKey accessKey =
     [(''active'', VBool (Active accessKey)),
      (''last_used_date'', VString (LastUsedDate accessKey)),
      (''last_rotated'', VString (LastRotated accessKey))]"

definition flatRow :: "ReportRow \<Rightarrow> flatmap" where
  "flatRow row =
     [(''user'', VString (User row)),
      (''password_enabled'', VBool (PasswordEnabled row)),
      (''password_last_used'', VString (PasswordLastUsed row)),
      (''password_last_changed'', VString (PasswordLastChanged row)),
      (''mfa_active'', VBool (MfaActive row)),
      (''mfa_virtual'', VBool (MfaVirtual row)),
      (''access_keys'', VList (flattenAccessKeys (AccessKeys row)))]"

section \<open>Reference notions for the parser\<close>

text \<open>
  The row a record stands for under a header map, every column read at its index. It
  is the row of \<open>reportRow\<close> when no index is out of range.
\<close>

definition decodeLine :: "(string \<rightharpoonup> nat) \<Rightarrow> string list \<Rightarrow> ReportRow" where
  "decodeLine header line =
     \<lparr>User = line ! header_index header ''user'',
      PasswordEnabled = parseCsvBool (line ! header_index header ''password_enabled''),
      PasswordLastUsed = line ! header_index header ''password_last_used'',
      PasswordLastChanged = line ! header_index header ''password_last_changed'',
      MfaActive = parseCsvBool (line ! header_index header ''mfa_active''),
      MfaVirtual = False,
      AccessKeys =
        [\<lparr>Active = parseCsvBool (line ! header_index header ''access_key_1_active''),
          LastUsedDate = line ! header_index header ''access_key_1_last_used_date'',
          LastRotated = line ! header_index header ''access_key_1_last_rotated''\<rparr>,
         \<lparr>Active = parseCsvBool (line ! header_index header ''access_key_2_active''),
          LastUsedDate = line ! header_index header ''access_key_2_last_used_date'',
          LastRotated = line ! header_index header ''access_key_2_last_rotated''\<rparr>]\<rparr>"

text \<open>
  A payload written out from its records: the fields of a record joined by commas, one
  record per line. A field is plain when it needs no quoting; a record can be written
  this way when it has a field, is not the single empty field (its line would be
  empty, and an empty line is no record) and its fields are plain.
\<close>

definition plain :: "string \<Rightarrow> bool" where
  "plain f = (Comma \<notin> set f \<and> Quote \<notin> set f \<and> NL \<notin> set f \<and> CR \<notin> set f)"

fun join_fields :: "string list \<Rightarrow> string" where
  "join_fields [] = []"
| "join_fields [f] = f"
| "join_fields (f # g # fs) = f @ Comma # join_fields (g # fs)"

definition render_line :: "string list \<Rightarrow> string" where
  "render_line fs = join_fields fs @ [NL]"

definition render :: "string list list \<Rightarrow> string" where
  "render records = concat (map render_line records)"

definition record_ok :: "string list \<Rightarrow> bool" where
  "record_ok fs = (fs \<noteq> [] \<and> fs \<noteq> [[]] \<and> list_all plain fs)"

section \<open>Reference notions for the virtual MFA step\<close>

text \<open>
  The account name a matched device name stands for: the name of the root account's
  device is replaced by the name the report gives the root account.
\<close>

definition accountName_of :: "string \<Rightarrow> string" where
  "accountName_of name =
     (if name = ''root-account-mfa-device'' then ''<root_account>'' else name)"

section \<open>Reference notions for the operations\<close>

text \<open>
  The error the closure retries: an \<^verbatim>\<open>awserr.Error\<close> with the code
  \<^verbatim>\<open>ReportInProgress\<close>.
\<close>

fun is_ReportInProgress :: "error \<Rightarrow> bool" where
  "is_ReportInProgress (AwsError code message) = (code = ''ReportInProgress'')"
| "is_ReportInProgress err = False"

text \<open>The values written to the field \<^verbatim>\<open>report\<close> along a trace, in order.\<close>

fun report_writes :: "event list \<Rightarrow> flatmap list list" where
  "report_writes [] = []"
| "report_writes (Set_report flat # events) = flat # report_writes events"
| "report_writes (e # events) = report_writes events"

text \<open>
  A flattened report the service script can give rise to, and what an operation leaves
  behind: after an error no write and the field as it was; after success one write, the
  last event, of such a report.
\<close>

definition served :: "iamconn \<Rightarrow> flatmap list \<Rightarrow> bool" where
  "served iamconn flat =
     (\<exists>n content report devices.
        GetCredentialReport iamconn n = Inr content
        \<and> parseCsvCredentialReport content = Inr report
        \<and> ListVirtualMFADevices iamconn = Inr devices
        \<and> flat = flattenCredentialReport (extend_loop (mfa_loop devices Map.empty) report))"

definition outcome :: "iamconn \<Rightarrow> error option \<Rightarrow> state \<Rightarrow> state \<Rightarrow> event list \<Rightarrow> bool" where
  "outcome iamconn result s s' events =
     (case result of
        Some e \<Rightarrow> d_report s' = d_report s \<and> report_writes events = []
      | None \<Rightarrow>
          (\<exists>flat. served iamconn flat \<and> d_report s' = Some flat
             \<and> report_writes events = [flat] \<and> last events = Set_report flat))"

section \<open>Properties of the flattening\<close>

lemma flattenAccessKeys_loop_map:
  "flattenAccessKeys_loop ks out = out @ map flatAccessKey ks"
  by (induction ks arbitrary: out) (simp_all add: flatAccessKey_def)

lemma flattenAccessKeys_map: "flattenAccessKeys ks = map flatAccessKey ks"
  by (simp add: flattenAccessKeys_def flattenAccessKeys_loop_map)

lemma flattenCredentialReport_loop_map:
  "flattenCredentialReport_loop report out = out @ map flatRow report"
  by (induction report arbitrary: out) (simp_all add: flatRow_def)

lemma flattenCredentialReport_map: "flattenCredentialReport report = map flatRow report"
  by (simp add: flattenCredentialReport_def flattenCredentialReport_loop_map)

lemma readAccessKey_flat: "readAccessKey (flatAccessKey k) = Some k"
  by (simp add: readAccessKey_def flatAccessKey_def getBool_def getString_def)

lemma readAll_map:
  "(\<And>x. f (g x) = Some x) \<Longrightarrow> readAll f (map g xs) = Some xs"
  by (induction xs) simp_all

lemma readReportRow_flat: "readReportRow (flatRow row) = Some row"
  by (simp add: readReportRow_def flatRow_def getBool_def getString_def getList_def
      flattenAccessKeys_map readAll_map[of readAccessKey flatAccessKey, OF readAccessKey_flat])

text \<open>
  C6: flattening keeps every field. Reading the flattened report back gives the report
  itself, for every report; the flattened list has one map per row, in the order of the
  rows.
\<close>

theorem flattenCredentialReport_lossless:
  "readCredentialReport (flattenCredentialReport report) = Some report
   \<and> flattenCredentialReport report = map flatRow report
   \<and> length (flattenCredentialReport report) = length report"
  by (simp add: readCredentialReport_def flattenCredentialReport_map
      readAll_map[of readReportRow flatRow, OF readReportRow_flat])

section \<open>Properties of the virtual MFA step\<close>

lemma strip_prefix_Some: "strip_prefix p s = Some r \<longleftrightarrow> s = p @ r"
proof
  assume "strip_prefix p s = Some r"
  then have "take (length p) s = p" and "drop (length p) s = r"
    by (simp_all add: strip_prefix_def split: if_splits)
  then show "s = p @ r" by (metis append_take_drop_id)
next
  assume "s = p @ r"
  then show "strip_prefix p s = Some r" by (simp add: strip_prefix_def)
qed

lemma isDigit_colon: "\<not> isDigit CHR '':''"
  by (simp add: isDigit_def)

lemma serial_match_intro:
  assumes "account \<noteq> []" and "list_all isDigit account" and "NL \<notin> set name"
  shows "serial_FindStringSubmatch (''arn:aws:iam::'' @ account @ '':mfa/'' @ name)
           = Some [''arn:aws:iam::'' @ account @ '':mfa/'' @ name, name]"
proof -
  let ?s1 = "account @ '':mfa/'' @ name"
  have sp: "strip_prefix ''arn:aws:iam::'' (''arn:aws:iam::'' @ ?s1) = Some ?s1"
    by (simp only: strip_prefix_Some)
  from assms(2) have dig: "\<forall>c\<in>set account. isDigit c" by (simp add: list_all_iff)
  have tw: "takeWhile isDigit ?s1 = account"
    using dig isDigit_colon by (simp add: takeWhile_append2)
  have dw: "dropWhile isDigit ?s1 = '':mfa/'' @ name"
    using dig isDigit_colon by (simp add: dropWhile_append2)
  have sp2: "strip_prefix '':mfa/'' ('':mfa/'' @ name) = Some name"
    by (simp only: strip_prefix_Some)
  from sp tw dw sp2 assms(1,3) show ?thesis
    by (simp add: serial_FindStringSubmatch_def)
qed

lemma serial_match_elim:
  assumes "serial_FindStringSubmatch s = Some m"
  shows "\<exists>account name. account \<noteq> [] \<and> list_all isDigit account \<and> NL \<notin> set name
           \<and> s = ''arn:aws:iam::'' @ account @ '':mfa/'' @ name \<and> m = [s, name]"
proof -
  from assms obtain s1 where s1: "strip_prefix ''arn:aws:iam::'' s = Some s1"
    by (cases "strip_prefix ''arn:aws:iam::'' s") (simp_all add: serial_FindStringSubmatch_def)
  from assms s1 have ne: "takeWhile isDigit s1 \<noteq> []"
    by (auto simp: serial_FindStringSubmatch_def split: if_splits)
  from assms s1 ne obtain name where
    name: "strip_prefix '':mfa/'' (dropWhile isDigit s1) = Some name"
    by (cases "strip_prefix '':mfa/'' (dropWhile isDigit s1)")
       (simp_all add: serial_FindStringSubmatch_def)
  from assms s1 ne name have nl: "NL \<notin> set name" and m: "m = [s, name]"
    by (auto simp: serial_FindStringSubmatch_def split: if_splits)
  from s1 have s: "s = ''arn:aws:iam::'' @ s1" by (simp only: strip_prefix_Some)
  from name have dw: "dropWhile isDigit s1 = '':mfa/'' @ name" by (simp only: strip_prefix_Some)
  have "s1 = takeWhile isDigit s1 @ dropWhile isDigit s1" by simp
  with dw have s1eq: "s1 = takeWhile isDigit s1 @ '':mfa/'' @ name" by simp
  have dig: "list_all isDigit (takeWhile isDigit s1)"
    by (auto simp: list_all_iff dest: set_takeWhileD)
  from s s1eq have "s = ''arn:aws:iam::'' @ takeWhile isDigit s1 @ '':mfa/'' @ name"
    by simp
  with ne dig nl m show ?thesis by blast
qed

lemma mfa_loop_None:
  "serial_FindStringSubmatch d = None \<Longrightarrow> mfa_loop (d # devices) acc = mfa_loop devices acc"
  by simp

lemma mfa_loop_Some:
  "serial_FindStringSubmatch d = Some [d, name] \<Longrightarrow>
   mfa_loop (d # devices) acc = mfa_loop devices (acc(accountName_of name \<mapsto> True))"
  by (simp add: Let_def accountName_of_def)

lemma mfa_loop_dom_iff:
  "u \<in> dom (mfa_loop devices acc) \<longleftrightarrow>
     u \<in> dom acc
     \<or> (\<exists>d name. d \<in> set devices \<and> serial_FindStringSubmatch d = Some [d, name]
           \<and> u = accountName_of name)"
proof (induction devices arbitrary: acc)
  case Nil
  then show ?case by simp
next
  case (Cons d devices)
  show ?case
  proof (cases "serial_FindStringSubmatch d")
    case None
    then have no: "\<And>name. serial_FindStringSubmatch d \<noteq> Some [d, name]" by simp
    show ?thesis
      unfolding mfa_loop_None[OF None] Cons.IH[of acc] using no by auto
  next
    case (Some m)
    from serial_match_elim[OF Some] obtain name where m: "m = [d, name]" by blast
    note match = Some[unfolded m]
    show ?thesis
      unfolding mfa_loop_Some[OF match] Cons.IH[of "acc(accountName_of name \<mapsto> True)"]
      using match by auto
  qed
qed

lemma mfa_loop_dom:
  "dom (mfa_loop devices acc) =
     dom acc \<union> {if name = ''root-account-mfa-device'' then ''<root_account>'' else name
               | d name. d \<in> set devices \<and> serial_FindStringSubmatch d = Some [d, name]}"
proof (rule set_eqI)
  fix u
  show "u \<in> dom (mfa_loop devices acc) \<longleftrightarrow>
     u \<in> dom acc \<union> {if name = ''root-account-mfa-device'' then ''<root_account>'' else name
               | d name. d \<in> set devices \<and> serial_FindStringSubmatch d = Some [d, name]}"
    unfolding mfa_loop_dom_iff[of u devices acc] accountName_of_def by blast
qed

lemma extend_loop_map:
  "extend_loop a report =
     map (\<lambda>row. if User row \<in> dom a then row\<lparr>MfaVirtual := True\<rparr> else row) report"
  by (induction report) (auto split: option.splits)

lemma mfa_loop_skip:
  "serial_FindStringSubmatch s = None \<Longrightarrow>
   mfa_loop (pre @ s # post) acc = mfa_loop (pre @ post) acc"
  by (induction pre arbitrary: acc) (simp_all split: option.splits)

text \<open>
  C5: a serial number matches exactly when it is \<^verbatim>\<open>arn:aws:iam::\<close>, one or more digits,
  \<^verbatim>\<open>:mfa/\<close> and a name without newline, and the group is that name. The accounts
  collected from a list of devices are the names of the matching serial numbers, with
  \<^verbatim>\<open>root-account-mfa-device\<close> replaced by \<^verbatim>\<open><root_account>\<close>. Extending the report sets
  \<open>MfaVirtual\<close> on every row whose user is among them and leaves the other rows as they
  are. A serial number that does not match is skipped: the accounts, and so the
  extended report, are those of the list without it, and alone it changes no row. The
  loops return no error.
\<close>

theorem virtual_mfa_accounts:
  "(serial_FindStringSubmatch s = Some m)
     = (\<exists>account name. account \<noteq> [] \<and> list_all isDigit account \<and> NL \<notin> set name
          \<and> s = ''arn:aws:iam::'' @ account @ '':mfa/'' @ name \<and> m = [s, name])
   \<and> dom (mfa_loop devices Map.empty) =
       {if name = ''root-account-mfa-device'' then ''<root_account>'' else name
        | d name. d \<in> set devices \<and> serial_FindStringSubmatch d = Some [d, name]}
   \<and> extend_loop (mfa_loop devices Map.empty) report =
       map (\<lambda>row. if User row \<in> dom (mfa_loop devices Map.empty)
                   then row\<lparr>MfaVirtual := True\<rparr> else row) report
   \<and> (serial_FindStringSubmatch s = None \<longrightarrow>
        mfa_loop (pre @ s # post) acc = mfa_loop (pre @ post) acc
        \<and> extend_loop (mfa_loop (pre @ s # post) Map.empty) report
            = extend_loop (mfa_loop (pre @ post) Map.empty) report
        \<and> extend_loop (mfa_loop [s] Map.empty) report = report)"
proof (intro conjI impI)
  show "(serial_FindStringSubmatch s = Some m)
     = (\<exists>account name. account \<noteq> [] \<and> list_all isDigit account \<and> NL \<notin> set name
          \<and> s = ''arn:aws:iam::'' @ account @ '':mfa/'' @ name \<and> m = [s, name])"
  proof
    assume "serial_FindStringSubmatch s = Some m"
    then show "\<exists>account name. account \<noteq> [] \<and> list_all isDigit account \<and> NL \<notin> set name
          \<and> s = ''arn:aws:iam::'' @ account @ '':mfa/'' @ name \<and> m = [s, name]"
      by (rule serial_match_elim)
  next
    assume "\<exists>account name. account \<noteq> [] \<and> list_all isDigit account \<and> NL \<notin> set name
          \<and> s = ''arn:aws:iam::'' @ account @ '':mfa/'' @ name \<and> m = [s, name]"
    then obtain account name where "account \<noteq> []" "list_all isDigit account" "NL \<notin> set name"
      and s: "s = ''arn:aws:iam::'' @ account @ '':mfa/'' @ name" and m: "m = [s, name]"
      by blast
    from serial_match_intro[OF this(1,2,3)] s m
    show "serial_FindStringSubmatch s = Some m" by simp
  qed
  show "dom (mfa_loop devices Map.empty) =
       {if name = ''root-account-mfa-device'' then ''<root_account>'' else name
        | d name. d \<in> set devices \<and> serial_FindStringSubmatch d = Some [d, name]}"
    by (simp add: mfa_loop_dom)
  show "extend_loop (mfa_loop devices Map.empty) report =
       map (\<lambda>row. if User row \<in> dom (mfa_loop devices Map.empty)
                   then row\<lparr>MfaVirtual := True\<rparr> else row) report"
    by (rule extend_loop_map)
next
  assume none: "serial_FindStringSubmatch s = None"
  then show "mfa_loop (pre @ s # post) acc = mfa_loop (pre @ post) acc"
    by (rule mfa_loop_skip)
  from mfa_loop_skip[OF none, of pre post Map.empty]
  show "extend_loop (mfa_loop (pre @ s # post) Map.empty) report
            = extend_loop (mfa_loop (pre @ post) Map.empty) report"
    by simp
  from none show "extend_loop (mfa_loop [s] Map.empty) report = report"
    by (simp add: extend_loop_map)
qed

theorem virtual_mfa_accounts_witness:
  "mfa_loop [''arn:aws:iam::123456789012:mfa/alice'', ''not-an-arn'',
             ''arn:aws:iam::123456789012:mfa/root-account-mfa-device''] Map.empty
     = mfa_loop [''arn:aws:iam::123456789012:mfa/alice'',
                 ''arn:aws:iam::123456789012:mfa/root-account-mfa-device''] Map.empty
   \<and> dom (mfa_loop [''arn:aws:iam::123456789012:mfa/alice'', ''not-an-arn'',
             ''arn:aws:iam::123456789012:mfa/root-account-mfa-device''] Map.empty)
       = {''alice'', ''<root_account>''}"
proof -
  let ?a = "''arn:aws:iam::123456789012:mfa/alice''"
  let ?r = "''arn:aws:iam::123456789012:mfa/root-account-mfa-device''"
  have none: "serial_FindStringSubmatch ''not-an-arn'' = None"
    by code_simp
  have skip: "mfa_loop ([?a] @ ''not-an-arn'' # [?r]) Map.empty = mfa_loop ([?a] @ [?r]) Map.empty"
    using virtual_mfa_accounts[of "''not-an-arn''" _ _ _ "[?a]" "[?r]" Map.empty] none by blast
  have a: "serial_FindStringSubmatch ?a = Some [?a, ''alice'']"
    by code_simp
  have r: "serial_FindStringSubmatch ?r = Some [?r, ''root-account-mfa-device'']"
    by code_simp
  have "mfa_loop [?a, ?r] Map.empty
          = [accountName_of ''alice'' \<mapsto> True, accountName_of ''root-account-mfa-device'' \<mapsto> True]"
    unfolding mfa_loop_Some[OF a] mfa_loop_Some[OF r] by simp
  then have "dom (mfa_loop [?a, ?r] Map.empty) = {''alice'', ''<root_account>''}"
    by (auto simp: accountName_of_def)
  with skip show ?thesis by simp
qed

text \<open>
  C10: extending the report keeps the number and the order of the rows and, in every
  row, the user, the password fields, \<open>MfaActive\<close> and the access keys; only
  \<open>MfaVirtual\<close> changes, and a row that had it set keeps it set.
\<close>

theorem extend_loop_frame:
  "length (extend_loop a report) = length report
   \<and> map User (extend_loop a report) = map User report
   \<and> map PasswordEnabled (extend_loop a report) = map PasswordEnabled report
   \<and> map PasswordLastUsed (extend_loop a report) = map PasswordLastUsed report
   \<and> map PasswordLastChanged (extend_loop a report) = map PasswordLastChanged report
   \<and> map MfaActive (extend_loop a report) = map MfaActive report
   \<and> map AccessKeys (extend_loop a report) = map AccessKeys report
   \<and> extend_loop a report
       = map (\<lambda>row. row\<lparr>MfaVirtual := MfaVirtual row \<or> User row \<in> dom a\<rparr>) report
   \<and> list_all2 (\<lambda>row row'. MfaVirtual row \<longrightarrow> MfaVirtual row') report (extend_loop a report)"
proof -
  have m: "extend_loop a report
       = map (\<lambda>row. row\<lparr>MfaVirtual := MfaVirtual row \<or> User row \<in> dom a\<rparr>) report"
    by (induction report) (auto split: option.splits simp: domIff)
  have l2: "list_all2 (\<lambda>row row'. MfaVirtual row \<longrightarrow> MfaVirtual row') report (extend_loop a report)"
    unfolding m by (induction report) simp_all
  show ?thesis
    using l2 by (simp add: m comp_def)
qed

theorem extend_loop_frame_witness:
  "extend_loop (mfa_loop [''arn:aws:iam::123456789012:mfa/alice''] Map.empty)
     [\<lparr>User = ''alice'', PasswordEnabled = True, PasswordLastUsed = ''N/A'',
       PasswordLastChanged = ''N/A'', MfaActive = True, MfaVirtual = False, AccessKeys = []\<rparr>,
      \<lparr>User = ''bob'', PasswordEnabled = False, PasswordLastUsed = ''N/A'',
       PasswordLastChanged = ''N/A'', MfaActive = False, MfaVirtual = False, AccessKeys = []\<rparr>]
   = [\<lparr>User = ''alice'', PasswordEnabled = True, PasswordLastUsed = ''N/A'',
       PasswordLastChanged = ''N/A'', MfaActive = True, MfaVirtual = True, AccessKeys = []\<rparr>,
      \<lparr>User = ''bob'', PasswordEnabled = False, PasswordLastUsed = ''N/A'',
       PasswordLastChanged = ''N/A'', MfaActive = False, MfaVirtual = False, AccessKeys = []\<rparr>]"
proof -
  define a where "a = mfa_loop [''arn:aws:iam::123456789012:mfa/alice''] Map.empty"
  define report where "report =
     [\<lparr>User = ''alice'', PasswordEnabled = True, PasswordLastUsed = ''N/A'',
       PasswordLastChanged = ''N/A'', MfaActive = True, MfaVirtual = False, AccessKeys = []\<rparr>,
      \<lparr>User = ''bob'', PasswordEnabled = False, PasswordLastUsed = ''N/A'',
       PasswordLastChanged = ''N/A'', MfaActive = False, MfaVirtual = False, AccessKeys = []\<rparr>]"
  have m: "serial_FindStringSubmatch ''arn:aws:iam::123456789012:mfa/alice''
             = Some [''arn:aws:iam::123456789012:mfa/alice'', ''alice'']"
    by code_simp
  have d: "dom a = {''alice''}"
    unfolding a_def mfa_loop_Some[OF m] by (simp add: accountName_of_def)
  from extend_loop_frame[of a report]
  have "extend_loop a report
          = map (\<lambda>row. row\<lparr>MfaVirtual := MfaVirtual row \<or> User row \<in> dom a\<rparr>) report"
    by (elim conjE)
  then show ?thesis
    unfolding d unfolding a_def report_def by simp
qed

section \<open>Properties of the parser\<close>

lemma header_loop_absent: "c \<notin> set ks \<Longrightarrow> header_loop i ks m c = m c"
  by (induction ks arbitrary: i m) auto

lemma header_loop_bound:
  "header_loop i ks m c = Some j \<Longrightarrow> m c = Some j \<or> (i \<le> j \<and> j < i + length ks)"
proof (induction ks arbitrary: i m)
  case Nil
  then show ?case by simp
next
  case (Cons k ks)
  from Cons.prems have "header_loop (Suc i) ks (m(k \<mapsto> i)) c = Some j" by simp
  from Cons.IH[OF this] show ?case by (auto split: if_splits)
qed

lemma header_index_bound:
  assumes "headerLine \<noteq> []"
  shows "header_index (header_loop 0 headerLine Map.empty) c < length headerLine"
proof (cases "header_loop 0 headerLine Map.empty c")
  case None
  with assms show ?thesis by (simp add: header_index_def)
next
  case (Some j)
  from header_loop_bound[OF Some] Some show ?thesis by (simp add: header_index_def)
qed

lemma header_index_absent:
  "c \<notin> set headerLine \<Longrightarrow> header_index (header_loop 0 headerLine Map.empty) c = 0"
  by (simp add: header_index_def header_loop_absent)

lemma csv_Read_fields:
  assumes "csv_Read r = Inr (record, r')"
  shows "record \<noteq> []"
    and "FieldsPerRecord r = 0 \<Longrightarrow> FieldsPerRecord r' = int (length record)"
    and "0 < FieldsPerRecord r \<Longrightarrow>
           int (length record) = FieldsPerRecord r \<and> FieldsPerRecord r' = FieldsPerRecord r"
proof -
  obtain res rest where rr: "readRecord (unread r) = (res, rest)"
    by (cases "readRecord (unread r)")
  with assms obtain record0 where res: "res = Inr record0"
    by (cases res) (auto simp: csv_Read_def)
  from assms rr res have eq: "record0 = record"
    by (auto simp: csv_Read_def split: if_splits)
  from readRecord_shorter[OF rr[unfolded res]] eq show "record \<noteq> []" by simp
  from assms rr res
  show "FieldsPerRecord r = 0 \<Longrightarrow> FieldsPerRecord r' = int (length record)"
    by (auto simp: csv_Read_def split: if_splits)
  from assms rr res
  show "0 < FieldsPerRecord r \<Longrightarrow>
           int (length record) = FieldsPerRecord r \<and> FieldsPerRecord r' = FieldsPerRecord r"
    by (auto simp: csv_Read_def split: if_splits)
qed

lemma csv_ReadAll_loop_fields:
  "csv_ReadAll_loop r records = Inr lines \<Longrightarrow> 0 < FieldsPerRecord r \<Longrightarrow>
   list_all (\<lambda>l. int (length l) = FieldsPerRecord r) records \<Longrightarrow>
   list_all (\<lambda>l. int (length l) = FieldsPerRecord r) lines"
proof (induction r records rule: csv_ReadAll_loop.induct)
  case (1 r records)
  show ?case
  proof (cases "csv_Read r")
    case (Inl err)
    with "1.prems" show ?thesis
      by (simp add: csv_ReadAll_loop.simps[of r records] split: if_splits)
  next
    case (Inr p)
    obtain fields r' where p: "p = (fields, r')" by (cases p)
    note rd = Inr[unfolded p]
    from rd "1.prems"(1) have loop: "csv_ReadAll_loop r' (records @ [fields]) = Inr lines"
      by (simp add: csv_ReadAll_loop.simps[of r records])
    from csv_Read_fields(3)[OF rd "1.prems"(2)]
    have len: "int (length fields) = FieldsPerRecord r" and same: "FieldsPerRecord r' = FieldsPerRecord r"
      by simp_all
    from "1.IH"[OF rd refl loop] "1.prems"(2,3) len same show ?thesis by simp
  qed
qed

lemma reportRow_in_bounds:
  assumes "\<And>c. header_index header c < length line"
  shows "reportRow header line = Inr (decodeLine header line)"
  by (simp add: reportRow_def column_def decodeLine_def assms)

lemma rows_loop_map:
  "list_all (\<lambda>l. length l = n) lines \<Longrightarrow> (\<And>c. header_index header c < n) \<Longrightarrow>
   rows_loop header lines = Inr (map (decodeLine header) lines)"
  by (induction lines) (simp_all add: reportRow_in_bounds)

lemma parse_reader_success:
  assumes rd: "csv_Read (csv_NewReader content) = Inr (headerLine, reader)"
    and all: "csv_ReadAll reader = Inr lines"
  shows "parseCsvCredentialReport content =
           Inr (map (decodeLine (header_loop 0 headerLine Map.empty)) lines)"
    and "headerLine \<noteq> []"
    and "list_all (\<lambda>l. length l = length headerLine) lines"
proof -
  have zero: "FieldsPerRecord (csv_NewReader content) = 0" by (simp add: csv_NewReader_def)
  from csv_Read_fields(1)[OF rd] show ne: "headerLine \<noteq> []" .
  from csv_Read_fields(2)[OF rd zero] have fpr: "FieldsPerRecord reader = int (length headerLine)" .
  with ne have pos: "0 < FieldsPerRecord reader" by simp
  from csv_ReadAll_loop_fields[OF all[unfolded csv_ReadAll_def] pos] fpr
  show lens: "list_all (\<lambda>l. length l = length headerLine) lines" by simp
  from rows_loop_map[OF lens header_index_bound[OF ne]] rd all
  show "parseCsvCredentialReport content =
           Inr (map (decodeLine (header_loop 0 headerLine Map.empty)) lines)"
    by (simp add: parseCsvCredentialReport_def)
qed

lemma parse_outcome:
  "(\<exists>err. parseCsvCredentialReport content = Inl (CsvError err))
   \<or> (\<exists>rows. parseCsvCredentialReport content = Inr rows)"
proof (cases "csv_Read (csv_NewReader content)")
  case (Inl err)
  then show ?thesis by (simp add: parseCsvCredentialReport_def)
next
  case (Inr p)
  obtain headerLine reader where p: "p = (headerLine, reader)" by (cases p)
  note rd = Inr[unfolded p]
  show ?thesis
  proof (cases "csv_ReadAll reader")
    case (Inl err)
    with rd show ?thesis by (simp add: parseCsvCredentialReport_def)
  next
    case (Inr lines)
    from parse_reader_success(1)[OF rd Inr] show ?thesis by simp
  qed
qed

subsection \<open>Payloads written out from records\<close>

lemma join_fields_chars:
  "list_all plain fs \<Longrightarrow> c \<in> set (join_fields fs) \<Longrightarrow> c \<noteq> Quote \<and> c \<noteq> NL \<and> c \<noteq> CR"
  by (induction fs rule: join_fields.induct) (auto simp: plain_def)

lemma join_fields_Nil: "join_fields fs = [] \<longleftrightarrow> fs = [] \<or> fs = [[]]"
  by (induction fs rule: join_fields.induct) auto

lemma parseField_plain:
  "fs \<noteq> [] \<Longrightarrow> list_all plain fs \<Longrightarrow>
   parseField (join_fields fs @ [NL]) rest acc = (Inr (acc @ fs), rest)"
proof (induction fs arbitrary: acc rule: join_fields.induct)
  case 1
  then show ?case by simp
next
  case (2 f)
  then have pl: "Comma \<notin> set f" "Quote \<notin> set f" "NL \<notin> set f" by (simp_all add: plain_def)
  have unq: "f @ [NL] = [] \<or> hd (f @ [NL]) \<noteq> Quote"
    using pl by (cases f) auto
  have nocomma: "cut Comma (f @ [NL]) = None"
    using pl by (simp add: cut_None)
  have fld: "take (length (f @ [NL]) - lengthNL (f @ [NL])) (f @ [NL]) = f"
    by (simp add: lengthNL_def)
  show ?case
    using unq nocomma fld pl
    by (simp add: parseField.simps[of "f @ [NL]" rest acc] del: hd_append2 hd_append)
next
  case (3 f g fs)
  then have pl: "Comma \<notin> set f" "Quote \<notin> set f" "NL \<notin> set f" by (simp_all add: plain_def)
  let ?tail = "join_fields (g # fs) @ [NL]"
  let ?line = "f @ Comma # ?tail"
  have unq: "?line = [] \<or> hd ?line \<noteq> Quote"
    using pl by (cases f) auto
  have c: "cut Comma ?line = Some (f, ?tail)"
    using pl by (simp add: cut_append)
  from "3.prems" have "parseField ?tail rest ((acc @ [f]) @ (g # fs)) = parseField ?tail rest ((acc @ [f]) @ (g # fs))"
    by simp
  have ih: "parseField ?tail rest (acc @ [f]) = (Inr ((acc @ [f]) @ g # fs), rest)"
    using "3.IH"[of "acc @ [f]"] "3.prems" by simp
  have "parseField ?line rest acc = parseField ?tail rest (acc @ [f])"
    using unq c pl by (simp add: parseField.simps[of ?line rest acc] del: hd_append2 hd_append)
  with ih show ?case by simp
qed

lemma readLine_render:
  assumes "list_all plain fs"
  shows "readLine (render_line fs @ rest) = Some (render_line fs, rest)"
proof -
  have nl: "NL \<notin> set (join_fields fs)" and cr: "CR \<notin> set (join_fields fs)"
    using join_fields_chars[OF assms] by blast+
  have c: "cut NL (join_fields fs @ NL # rest) = Some (join_fields fs, rest)"
    using nl by (rule cut_append)
  have "join_fields fs \<noteq> [] \<Longrightarrow> last (join_fields fs) \<noteq> CR"
    using cr last_in_set by metis
  with c show ?thesis
    by (auto simp: readLine_def render_line_def)
qed

lemma readRecord_render:
  assumes "record_ok fs"
  shows "readRecord (render_line fs @ rest) = (Inr fs, rest)"
proof -
  from assms have ne: "fs \<noteq> []" and nb: "fs \<noteq> [[]]" and pl: "list_all plain fs"
    by (simp_all add: record_ok_def)
  from ne nb have j: "join_fields fs \<noteq> []" by (simp add: join_fields_Nil)
  have len: "length (render_line fs) \<noteq> lengthNL (render_line fs)"
    using j by (cases "join_fields fs") (simp_all add: render_line_def lengthNL_def)
  have pf: "parseField (render_line fs) rest [] = (Inr fs, rest)"
    using parseField_plain[OF ne pl, of rest "[]"] by (simp add: render_line_def)
  from readLine_render[OF pl, of rest] len pf
  show ?thesis
    by (simp add: readRecord.simps[of "render_line fs @ rest"])
qed

lemma csv_ReadAll_loop_render:
  "0 < n \<Longrightarrow> list_all (\<lambda>l. record_ok l \<and> int (length l) = n) lines \<Longrightarrow>
   csv_ReadAll_loop \<lparr>unread = render lines, FieldsPerRecord = n\<rparr> records = Inr (records @ lines)"
proof (induction lines arbitrary: records)
  case Nil
  have "readLine [] = None" by (simp add: readLine_def)
  then have "readRecord [] = (Inl EOF, [])" by (simp add: readRecord.simps[of "[]"])
  then show ?case
    by (simp add: csv_ReadAll_loop.simps[of _ records] csv_Read_def render_def)
next
  case (Cons l lines)
  from Cons.prems have ok: "record_ok l" and len: "int (length l) = n" by simp_all
  have "csv_Read \<lparr>unread = render (l # lines), FieldsPerRecord = n\<rparr>
          = Inr (l, \<lparr>unread = render lines, FieldsPerRecord = n\<rparr>)"
    using readRecord_render[OF ok, of "render lines"] len Cons.prems(1)
    by (simp add: csv_Read_def render_def)
  then have "csv_ReadAll_loop \<lparr>unread = render (l # lines), FieldsPerRecord = n\<rparr> records
          = csv_ReadAll_loop \<lparr>unread = render lines, FieldsPerRecord = n\<rparr> (records @ [l])"
    by (simp add: csv_ReadAll_loop.simps[of "\<lparr>unread = render (l # lines), FieldsPerRecord = n\<rparr>" records])
  with Cons.IH[of "records @ [l]"] Cons.prems show ?case by simp
qed

lemma reader_render:
  assumes "record_ok headerLine"
    and "list_all (\<lambda>l. record_ok l \<and> length l = length headerLine) lines"
  shows "csv_Read (csv_NewReader (render (headerLine # lines)))
           = Inr (headerLine, \<lparr>unread = render lines, FieldsPerRecord = int (length headerLine)\<rparr>)"
    and "csv_ReadAll \<lparr>unread = render lines, FieldsPerRecord = int (length headerLine)\<rparr> = Inr lines"
proof -
  show "csv_Read (csv_NewReader (render (headerLine # lines)))
           = Inr (headerLine, \<lparr>unread = render lines, FieldsPerRecord = int (length headerLine)\<rparr>)"
    using readRecord_render[OF assms(1), of "render lines"]
    by (simp add: csv_Read_def csv_NewReader_def render_def)
  from assms(1) have "0 < int (length headerLine)" by (simp add: record_ok_def)
  from csv_ReadAll_loop_render[OF this, of lines "[]"] assms(2)
  show "csv_ReadAll \<lparr>unread = render lines, FieldsPerRecord = int (length headerLine)\<rparr> = Inr lines"
    by (simp add: csv_ReadAll_def)
qed

lemma parse_Inr_reader:
  assumes "parseCsvCredentialReport content = Inr rows"
  shows "\<exists>headerLine reader lines.
           csv_Read (csv_NewReader content) = Inr (headerLine, reader)
           \<and> csv_ReadAll reader = Inr lines"
proof (cases "csv_Read (csv_NewReader content)")
  case (Inl err)
  with assms show ?thesis by (simp add: parseCsvCredentialReport_def)
next
  case (Inr p)
  obtain headerLine reader where p: "p = (headerLine, reader)" by (cases p)
  note rd = Inr[unfolded p]
  show ?thesis
  proof (cases "csv_ReadAll reader")
    case (Inl err)
    with rd assms show ?thesis by (simp add: parseCsvCredentialReport_def)
  next
    case (Inr lines)
    with rd show ?thesis by blast
  qed
qed

lemma parse_Inl_reader:
  assumes "parseCsvCredentialReport content = Inl err"
  shows "\<exists>e. err = CsvError e
           \<and> (csv_Read (csv_NewReader content) = Inl e
              \<or> (\<exists>headerLine reader. csv_Read (csv_NewReader content) = Inr (headerLine, reader)
                    \<and> csv_ReadAll reader = Inl e))"
proof (cases "csv_Read (csv_NewReader content)")
  case (Inl e)
  with assms show ?thesis by (auto simp: parseCsvCredentialReport_def)
next
  case (Inr p)
  obtain headerLine reader where p: "p = (headerLine, reader)" by (cases p)
  note rd = Inr[unfolded p]
  show ?thesis
  proof (cases "csv_ReadAll reader")
    case (Inl e)
    with rd assms show ?thesis by (auto simp: parseCsvCredentialReport_def)
  next
    case (Inr lines)
    from parse_reader_success(1)[OF rd Inr] assms show ?thesis by simp
  qed
qed

lemma column_in_bounds:
  "header_index header c < length line \<Longrightarrow> column header line c = Inr (line ! header_index header c)"
  by (simp add: column_def)

subsection \<open>The claims about the parser\<close>

text \<open>
  C9: \<open>parseCsvCredentialReport\<close> returns for every payload, either an error of the CSV
  reader or the rows, and never reads a record out of range. In every run that returns
  rows the reader has produced a header record with at least one field and records with
  as many fields as the header; the index of every column name is below that number,
  the index of a name that is not in the header being 0; so every access
  \<^verbatim>\<open>line[header[c]]\<close> finds its field.
\<close>

theorem parseCsvCredentialReport_in_bounds:
  "parseCsvCredentialReport content \<noteq> Inl IndexOutOfRange
   \<and> ((\<exists>err. parseCsvCredentialReport content = Inl (CsvError err))
       \<or> (\<exists>rows. parseCsvCredentialReport content = Inr rows))
   \<and> (parseCsvCredentialReport content = Inr rows \<longrightarrow>
        (\<exists>headerLine reader lines.
           csv_Read (csv_NewReader content) = Inr (headerLine, reader)
           \<and> csv_ReadAll reader = Inr lines
           \<and> headerLine \<noteq> []
           \<and> list_all (\<lambda>line. length line = length headerLine) lines
           \<and> (\<forall>c. c \<notin> set headerLine \<longrightarrow>
                  header_index (header_loop 0 headerLine Map.empty) c = 0)
           \<and> (\<forall>c. header_index (header_loop 0 headerLine Map.empty) c < length headerLine)
           \<and> list_all (\<lambda>line. \<forall>c. column (header_loop 0 headerLine Map.empty) line c
                  = Inr (line ! header_index (header_loop 0 headerLine Map.empty) c)) lines
           \<and> rows = map (decodeLine (header_loop 0 headerLine Map.empty)) lines))"
proof (intro conjI impI)
  from parse_outcome[of content]
  show "parseCsvCredentialReport content \<noteq> Inl IndexOutOfRange" by auto
  show "(\<exists>err. parseCsvCredentialReport content = Inl (CsvError err))
       \<or> (\<exists>rows. parseCsvCredentialReport content = Inr rows)"
    by (rule parse_outcome)
next
  assume ok: "parseCsvCredentialReport content = Inr rows"
  from parse_Inr_reader[OF ok] obtain headerLine reader lines
    where rd: "csv_Read (csv_NewReader content) = Inr (headerLine, reader)"
      and all: "csv_ReadAll reader = Inr lines" by blast
  let ?h = "header_loop 0 headerLine Map.empty"
  note s = parse_reader_success[OF rd all]
  from s(1) ok have rows: "rows = map (decodeLine ?h) lines" by simp
  have bound: "\<forall>c. header_index ?h c < length headerLine"
    using header_index_bound[OF s(2)] by simp
  have cols: "list_all (\<lambda>line. \<forall>c. column ?h line c = Inr (line ! header_index ?h c)) lines"
    using s(3) bound by (induction lines) (simp_all add: column_in_bounds)
  from rd all s(2,3) bound cols rows header_index_absent[of _ headerLine]
  show "\<exists>headerLine reader lines.
           csv_Read (csv_NewReader content) = Inr (headerLine, reader)
           \<and> csv_ReadAll reader = Inr lines
           \<and> headerLine \<noteq> []
           \<and> list_all (\<lambda>line. length line = length headerLine) lines
           \<and> (\<forall>c. c \<notin> set headerLine \<longrightarrow>
                  header_index (header_loop 0 headerLine Map.empty) c = 0)
           \<and> (\<forall>c. header_index (header_loop 0 headerLine Map.empty) c < length headerLine)
           \<and> list_all (\<lambda>line. \<forall>c. column (header_loop 0 headerLine Map.empty) line c
                  = Inr (line ! header_index (header_loop 0 headerLine Map.empty) c)) lines
           \<and> rows = map (decodeLine (header_loop 0 headerLine Map.empty)) lines"
    by blast
qed

theorem parseCsvCredentialReport_in_bounds_witness:
  "\<exists>headerLine reader lines.
     csv_Read (csv_NewReader (''user,mfa_active'' @ [NL] @ ''alice,true'' @ [NL] @ ''bob,false'' @ [NL]))
       = Inr (headerLine, reader)
     \<and> csv_ReadAll reader = Inr lines
     \<and> headerLine \<noteq> []
     \<and> list_all (\<lambda>line. length line = length headerLine) lines
     \<and> (\<forall>c. header_index (header_loop 0 headerLine Map.empty) c < length headerLine)"
proof -
  let ?content = "''user,mfa_active'' @ [NL] @ ''alice,true'' @ [NL] @ ''bob,false'' @ [NL]"
  have "\<not> isl (parseCsvCredentialReport ?content)"
    by code_simp
  then obtain rows where "parseCsvCredentialReport ?content = Inr rows"
    by (cases "parseCsvCredentialReport ?content") simp_all
  with parseCsvCredentialReport_in_bounds[of ?content rows] show ?thesis by blast
qed

text \<open>
  C4: when the CSV reader reads a header record and then \<open>N\<close> records from the payload,
  \<open>parseCsvCredentialReport\<close> returns \<open>N\<close> rows and the \<open>i\<close>-th row is the \<open>i\<close>-th record
  decoded under the header. In particular this holds for the payload that consists of a
  header line and \<open>N\<close> data lines of plain, comma-separated fields, each with as many
  fields as the header.
\<close>

theorem parseCsvCredentialReport_rows_in_order:
  "(csv_Read (csv_NewReader content) = Inr (headerLine, reader) \<and> csv_ReadAll reader = Inr lines
      \<longrightarrow> (\<exists>rows. parseCsvCredentialReport content = Inr rows
             \<and> length rows = length lines
             \<and> (\<forall>i<length lines.
                   rows ! i = decodeLine (header_loop 0 headerLine Map.empty) (lines ! i))))
   \<and> (record_ok headerLine \<and> list_all (\<lambda>l. record_ok l \<and> length l = length headerLine) lines
      \<longrightarrow> (\<exists>rows. parseCsvCredentialReport (render (headerLine # lines)) = Inr rows
             \<and> length rows = length lines
             \<and> (\<forall>i<length lines.
                   rows ! i = decodeLine (header_loop 0 headerLine Map.empty) (lines ! i))))"
proof (intro conjI impI)
  assume "csv_Read (csv_NewReader content) = Inr (headerLine, reader)
            \<and> csv_ReadAll reader = Inr lines"
  then have "parseCsvCredentialReport content
               = Inr (map (decodeLine (header_loop 0 headerLine Map.empty)) lines)"
    using parse_reader_success(1) by blast
  then show "\<exists>rows. parseCsvCredentialReport content = Inr rows
             \<and> length rows = length lines
             \<and> (\<forall>i<length lines.
                   rows ! i = decodeLine (header_loop 0 headerLine Map.empty) (lines ! i))"
    by simp
next
  assume "record_ok headerLine
            \<and> list_all (\<lambda>l. record_ok l \<and> length l = length headerLine) lines"
  then have "parseCsvCredentialReport (render (headerLine # lines))
               = Inr (map (decodeLine (header_loop 0 headerLine Map.empty)) lines)"
    using parse_reader_success(1)[OF reader_render] by blast
  then show "\<exists>rows. parseCsvCredentialReport (render (headerLine # lines)) = Inr rows
             \<and> length rows = length lines
             \<and> (\<forall>i<length lines.
                   rows ! i = decodeLine (header_loop 0 headerLine Map.empty) (lines ! i))"
    by simp
qed

theorem parseCsvCredentialReport_rows_in_order_witness:
  "\<exists>rows. parseCsvCredentialReport
       (render
         [[''user'', ''arn'', ''password_enabled'', ''password_last_used'',
           ''password_last_changed'', ''mfa_active'', ''access_key_1_active'',
           ''access_key_1_last_rotated'', ''access_key_1_last_used_date'',
           ''access_key_2_active'', ''access_key_2_last_rotated'',
           ''access_key_2_last_used_date''],
          [''<root_account>'', ''arn:aws:iam::123456789012:root'', ''not_supported'',
           ''2019-03-01T10:00:00+00:00'', ''not_supported'', ''true'', ''false'', ''N/A'',
           ''N/A'', ''false'', ''N/A'', ''N/A''],
          [''alice'', ''arn:aws:iam::123456789012:user/alice'', ''true'', ''no_information'',
           ''2019-02-01T09:30:00+00:00'', ''false'', ''true'', ''2019-01-15T08:00:00+00:00'',
           ''2019-02-20T12:00:00+00:00'', ''false'', ''N/A'', ''N/A'']]) = Inr rows
     \<and> length rows = 2
     \<and> User (rows ! 0) = ''<root_account>'' \<and> MfaActive (rows ! 0)
     \<and> User (rows ! 1) = ''alice'' \<and> PasswordEnabled (rows ! 1)"
proof -
  let ?h = "[''user'', ''arn'', ''password_enabled'', ''password_last_used'',
           ''password_last_changed'', ''mfa_active'', ''access_key_1_active'',
           ''access_key_1_last_rotated'', ''access_key_1_last_used_date'',
           ''access_key_2_active'', ''access_key_2_last_rotated'',
           ''access_key_2_last_used_date'']"
  let ?l0 = "[''<root_account>'', ''arn:aws:iam::123456789012:root'', ''not_supported'',
           ''2019-03-01T10:00:00+00:00'', ''not_supported'', ''true'', ''false'', ''N/A'',
           ''N/A'', ''false'', ''N/A'', ''N/A'']"
  let ?l1 = "[''alice'', ''arn:aws:iam::123456789012:user/alice'', ''true'', ''no_information'',
           ''2019-02-01T09:30:00+00:00'', ''false'', ''true'', ''2019-01-15T08:00:00+00:00'',
           ''2019-02-20T12:00:00+00:00'', ''false'', ''N/A'', ''N/A'']"
  have ok: "record_ok ?h \<and> list_all (\<lambda>l. record_ok l \<and> length l = length ?h) [?l0, ?l1]"
    by code_simp
  have r0: "User (decodeLine (header_loop 0 ?h Map.empty) ?l0) = ''<root_account>''
      \<and> MfaActive (decodeLine (header_loop 0 ?h Map.empty) ?l0)"
    by code_simp
  have r1: "User (decodeLine (header_loop 0 ?h Map.empty) ?l1) = ''alice''
      \<and> PasswordEnabled (decodeLine (header_loop 0 ?h Map.empty) ?l1)"
    by code_simp
  from parseCsvCredentialReport_rows_in_order[of _ ?h _ "[?l0, ?l1]"] ok
  obtain rows where p: "parseCsvCredentialReport (render (?h # [?l0, ?l1])) = Inr rows"
    and len: "length rows = length [?l0, ?l1]"
    and nth: "\<forall>i<length [?l0, ?l1]. rows ! i = decodeLine (header_loop 0 ?h Map.empty) ([?l0, ?l1] ! i)"
    by blast
  from nth have "rows ! 0 = decodeLine (header_loop 0 ?h Map.empty) ?l0"
    and "rows ! 1 = decodeLine (header_loop 0 ?h Map.empty) ?l1"
    by simp_all
  with p len r0 r1 show ?thesis by simp
qed

text \<open>
  C3: \<open>parseCsvBool\<close> is true on the string \<open>true\<close> and on no other string; in
  particular not on \<open>false\<close>, on the empty string or on \<open>TRUE\<close>.
\<close>

theorem parseCsvBool_true_only:
  "parseCsvBool s = (s = ''true'')
   \<and> parseCsvBool ''true''
   \<and> \<not> parseCsvBool ''false''
   \<and> \<not> parseCsvBool ''''
   \<and> \<not> parseCsvBool ''TRUE''"
  by (simp add: parseCsvBool_def)

theorem parseCsvBool_true_only_witness:
  "parseCsvBool ''True'' = False \<and> parseCsvBool ''true'' = True"
  using parseCsvBool_true_only[of "''True''"] by simp

section \<open>Properties of the operations\<close>

lemma emit_simps [simp]:
  "d_id (emit e s) = d_id s"
  "d_report (emit e s) = d_report s"
  "trace (emit e s) = trace s @ [e]"
  by (simp_all add: emit_def)

lemma get_calls_emit [simp]:
  "get_calls (emit e s) = (if e = Call_GetCredentialReport then Suc (get_calls s) else get_calls s)"
  by (simp add: get_calls_def emit_def)

lemma get_calls_d_report [simp]: "get_calls (s\<lparr>d_report := r\<rparr>) = get_calls s"
  by (simp add: get_calls_def)

lemma get_calls_d_id [simp]: "get_calls (s\<lparr>d_id := r\<rparr>) = get_calls s"
  by (simp add: get_calls_def)

lemma attempt_in_progress:
  "GetCredentialReport iamconn (get_calls s) = Inl err \<Longrightarrow> is_ReportInProgress err \<Longrightarrow>
   attempt iamconn s = (Some (RetryableError err), emit Call_GetCredentialReport s)"
  by (cases err) (simp_all add: attempt_def)

lemma attempt_get_error:
  "GetCredentialReport iamconn (get_calls s) = Inl err \<Longrightarrow> \<not> is_ReportInProgress err \<Longrightarrow>
   attempt iamconn s = (Some (NonRetryableError err), emit Call_GetCredentialReport s)"
  by (cases err) (simp_all add: attempt_def)

lemma attempt_parse_error:
  "GetCredentialReport iamconn (get_calls s) = Inr content \<Longrightarrow>
   parseCsvCredentialReport content = Inl err \<Longrightarrow>
   attempt iamconn s = (Some (NonRetryableError err), emit Call_GetCredentialReport s)"
  by (simp add: attempt_def)

lemma attempt_mfa_error:
  "GetCredentialReport iamconn (get_calls s) = Inr content \<Longrightarrow>
   parseCsvCredentialReport content = Inr report \<Longrightarrow>
   ListVirtualMFADevices iamconn = Inl err \<Longrightarrow>
   attempt iamconn s
     = (Some (NonRetryableError err),
        emit Call_ListVirtualMFADevices (emit Call_GetCredentialReport s))"
  by (simp add: attempt_def)

lemma attempt_success:
  "GetCredentialReport iamconn (get_calls s) = Inr content \<Longrightarrow>
   parseCsvCredentialReport content = Inr report \<Longrightarrow>
   ListVirtualMFADevices iamconn = Inr devices \<Longrightarrow>
   flat = flattenCredentialReport (extend_loop (mfa_loop devices Map.empty) report) \<Longrightarrow>
   attempt iamconn s
     = (None,
        (emit (Set_report flat)
           (emit Call_ListVirtualMFADevices (emit Call_GetCredentialReport s)))
          \<lparr>d_report := Some flat\<rparr>)"
  by (simp add: attempt_def Let_def)

text \<open>The first \<open>K\<close> attempts find the report in progress.\<close>

lemma Retry_in_progress:
  "(\<And>i. i < K \<Longrightarrow> \<exists>err. GetCredentialReport iamconn (get_calls s + i) = Inl err
                          \<and> is_ReportInProgress err) \<Longrightarrow>
   K \<le> timeout \<Longrightarrow>
   \<exists>s'. Retry timeout (attempt iamconn) s = Retry (timeout - K) (attempt iamconn) s'
        \<and> get_calls s' = get_calls s + K \<and> d_report s' = d_report s \<and> d_id s' = d_id s"
proof (induction K arbitrary: s timeout)
  case 0
  show ?case by (intro exI[of _ s]) simp
next
  case (Suc K)
  from Suc.prems(2) obtain t where t: "timeout = Suc t" and le: "K \<le> t"
    by (cases timeout) simp_all
  from Suc.prems(1)[of 0] obtain err where
    "GetCredentialReport iamconn (get_calls s) = Inl err" "is_ReportInProgress err"
    by auto
  from attempt_in_progress[OF this]
  have step: "Retry timeout (attempt iamconn) s
                = Retry t (attempt iamconn) (emit Call_GetCredentialReport s)"
    by (simp add: t)
  have "\<And>i. i < K \<Longrightarrow> \<exists>err. GetCredentialReport iamconn
            (get_calls (emit Call_GetCredentialReport s) + i) = Inl err \<and> is_ReportInProgress err"
    using Suc.prems(1)[of "Suc i" for i] by simp
  from Suc.IH[OF this le] obtain s' where
    "Retry t (attempt iamconn) (emit Call_GetCredentialReport s)
       = Retry (t - K) (attempt iamconn) s'"
    "get_calls s' = get_calls (emit Call_GetCredentialReport s) + K"
    "d_report s' = d_report (emit Call_GetCredentialReport s)"
    "d_id s' = d_id (emit Call_GetCredentialReport s)"
    by blast
  with step t show ?case by auto
qed

lemma Read_generate_ok:
  "GenerateCredentialReport iamconn = None \<Longrightarrow>
   resourceAwsIamCredentialReportRead iamconn timeout s
     = Retry timeout (attempt iamconn) (emit Call_GenerateCredentialReport s)"
  by (simp add: resourceAwsIamCredentialReportRead_def)

text \<open>
  C2: the trigger having succeeded, let the first \<open>K\<close> calls of \<^verbatim>\<open>GetCredentialReport\<close>
  answer with the error \<^verbatim>\<open>ReportInProgress\<close>. If \<open>K\<close> is below the number of attempts the
  timeout allows and the next attempt gets a report that parses and the list of
  devices, the read succeeds and stores the flattened, extended report. If all the
  attempts the timeout allows are used up this way, the read fails with the timeout
  error. If the next attempt meets any other error (of the call, of the parser, or of
  \<^verbatim>\<open>ListVirtualMFADevices\<close>), the read returns that error and has made exactly \<open>K + 1\<close>
  calls of \<^verbatim>\<open>GetCredentialReport\<close>: nothing was retried after it.
\<close>

theorem read_polls_until_ready:
  assumes gen: "GenerateCredentialReport iamconn = None"
    and busy: "\<forall>i<K. \<exists>err. GetCredentialReport iamconn (get_calls s + i) = Inl err
                  \<and> is_ReportInProgress err"
  shows "(K < timeout
          \<and> GetCredentialReport iamconn (get_calls s + K) = Inr content
          \<and> parseCsvCredentialReport content = Inr report
          \<and> ListVirtualMFADevices iamconn = Inr devices \<longrightarrow>
            (\<exists>s'. resourceAwsIamCredentialReportRead iamconn timeout s = (None, s')
               \<and> d_report s'
                   = Some (flattenCredentialReport (extend_loop (mfa_loop devices Map.empty) report))
               \<and> get_calls s' = get_calls s + K + 1))
       \<and> (K = timeout \<longrightarrow>
            (\<exists>s'. resourceAwsIamCredentialReportRead iamconn timeout s = (Some TimeoutError, s')
               \<and> d_report s' = d_report s
               \<and> get_calls s' = get_calls s + timeout))
       \<and> (K < timeout
          \<and> ((GetCredentialReport iamconn (get_calls s + K) = Inl err \<and> \<not> is_ReportInProgress err)
             \<or> (\<exists>content. GetCredentialReport iamconn (get_calls s + K) = Inr content
                   \<and> parseCsvCredentialReport content = Inl err)
             \<or> (\<exists>content report. GetCredentialReport iamconn (get_calls s + K) = Inr content
                   \<and> parseCsvCredentialReport content = Inr report
                   \<and> ListVirtualMFADevices iamconn = Inl err)) \<longrightarrow>
            (\<exists>s'. resourceAwsIamCredentialReportRead iamconn timeout s = (Some err, s')
               \<and> d_report s' = d_report s
               \<and> get_calls s' = get_calls s + K + 1))"
proof -
  let ?s1 = "emit Call_GenerateCredentialReport s"
  have busy1: "\<And>i. i < K \<Longrightarrow> \<exists>err. GetCredentialReport iamconn (get_calls ?s1 + i) = Inl err
                  \<and> is_ReportInProgress err"
    using busy by simp
  have polls: "K \<le> timeout \<Longrightarrow>
      \<exists>s2. resourceAwsIamCredentialReportRead iamconn timeout s
              = Retry (timeout - K) (attempt iamconn) s2
          \<and> get_calls s2 = get_calls s + K \<and> d_report s2 = d_report s"
  proof -
    assume "K \<le> timeout"
    from Retry_in_progress[OF busy1 this] obtain s2 where
      "Retry timeout (attempt iamconn) ?s1 = Retry (timeout - K) (attempt iamconn) s2"
      "get_calls s2 = get_calls ?s1 + K" "d_report s2 = d_report ?s1"
      by blast
    then show ?thesis by (auto simp: Read_generate_ok[OF gen])
  qed
  show ?thesis
  proof (intro conjI impI)
    assume a: "K < timeout
          \<and> GetCredentialReport iamconn (get_calls s + K) = Inr content
          \<and> parseCsvCredentialReport content = Inr report
          \<and> ListVirtualMFADevices iamconn = Inr devices"
    then obtain t where t: "timeout - K = Suc t" by (cases "timeout - K") simp_all
    from a polls obtain s2 where
      r: "resourceAwsIamCredentialReportRead iamconn timeout s
              = Retry (timeout - K) (attempt iamconn) s2"
      and g: "get_calls s2 = get_calls s + K" and d: "d_report s2 = d_report s"
      by auto
    from a g have "GetCredentialReport iamconn (get_calls s2) = Inr content" by simp
    from attempt_success[OF this _ _ refl, of report devices] a
    have "attempt iamconn s2
     = (None,
        (emit (Set_report (flattenCredentialReport (extend_loop (mfa_loop devices Map.empty) report)))
           (emit Call_ListVirtualMFADevices (emit Call_GetCredentialReport s2)))
          \<lparr>d_report := Some (flattenCredentialReport (extend_loop (mfa_loop devices Map.empty) report))\<rparr>)"
      by simp
    with r t g
    show "\<exists>s'. resourceAwsIamCredentialReportRead iamconn timeout s = (None, s')
               \<and> d_report s'
                   = Some (flattenCredentialReport (extend_loop (mfa_loop devices Map.empty) report))
               \<and> get_calls s' = get_calls s + K + 1"
      by simp
  next
    assume "K = timeout"
    with polls
    show "\<exists>s'. resourceAwsIamCredentialReportRead iamconn timeout s = (Some TimeoutError, s')
               \<and> d_report s' = d_report s
               \<and> get_calls s' = get_calls s + timeout"
      by auto
  next
    assume a: "K < timeout
          \<and> ((GetCredentialReport iamconn (get_calls s + K) = Inl err \<and> \<not> is_ReportInProgress err)
             \<or> (\<exists>content. GetCredentialReport iamconn (get_calls s + K) = Inr content
                   \<and> parseCsvCredentialReport content = Inl err)
             \<or> (\<exists>content report. GetCredentialReport iamconn (get_calls s + K) = Inr content
                   \<and> parseCsvCredentialReport content = Inr report
                   \<and> ListVirtualMFADevices iamconn = Inl err))"
    then obtain t where t: "timeout - K = Suc t" by (cases "timeout - K") simp_all
    from a polls obtain s2 where
      r: "resourceAwsIamCredentialReportRead iamconn timeout s
              = Retry (timeout - K) (attempt iamconn) s2"
      and g: "get_calls s2 = get_calls s + K" and d: "d_report s2 = d_report s"
      by auto
    from a g have "\<exists>s3. attempt iamconn s2 = (Some (NonRetryableError err), s3)
        \<and> d_report s3 = d_report s2 \<and> get_calls s3 = Suc (get_calls s2)"
      by (auto simp: attempt_get_error attempt_parse_error attempt_mfa_error)
    then obtain s3 where "attempt iamconn s2 = (Some (NonRetryableError err), s3)"
      "d_report s3 = d_report s2" "get_calls s3 = Suc (get_calls s2)" by blast
    with r t g d
    show "\<exists>s'. resourceAwsIamCredentialReportRead iamconn timeout s = (Some err, s')
               \<and> d_report s' = d_report s
               \<and> get_calls s' = get_calls s + K + 1"
      by simp
  qed
qed

theorem read_polls_until_ready_witness:
  "(\<exists>s' report.
      parseCsvCredentialReport (''user,mfa_active'' @ [NL] @ ''alice,true'' @ [NL]) = Inr report
      \<and> resourceAwsIamCredentialReportRead
          \<lparr>GenerateCredentialReport = None,
           GetCredentialReport = (\<lambda>n. if n < 2 then Inl (AwsError ''ReportInProgress'' ''busy'')
                                      else Inr (''user,mfa_active'' @ [NL] @ ''alice,true'' @ [NL])),
           ListVirtualMFADevices = Inr [''arn:aws:iam::123456789012:mfa/alice'']\<rparr>
          5 \<lparr>d_id = ''iam-credential-report'', d_report = None, trace = []\<rparr> = (None, s')
      \<and> d_report s' = Some (flattenCredentialReport
            (extend_loop (mfa_loop [''arn:aws:iam::123456789012:mfa/alice''] Map.empty) report))
      \<and> get_calls s' = 3)
   \<and> (\<exists>s'. resourceAwsIamCredentialReportRead
          \<lparr>GenerateCredentialReport = None,
           GetCredentialReport = (\<lambda>n. Inl (AwsError ''ReportInProgress'' ''busy'')),
           ListVirtualMFADevices = Inr []\<rparr>
          4 \<lparr>d_id = ''iam-credential-report'', d_report = None, trace = []\<rparr>
            = (Some TimeoutError, s')
      \<and> d_report s' = None \<and> get_calls s' = 4)
   \<and> (\<exists>s'. resourceAwsIamCredentialReportRead
          \<lparr>GenerateCredentialReport = None,
           GetCredentialReport = (\<lambda>n. if n < 1 then Inl (AwsError ''ReportInProgress'' ''busy'')
                                      else Inl (AwsError ''Throttling'' ''slow down'')),
           ListVirtualMFADevices = Inr []\<rparr>
          4 \<lparr>d_id = ''iam-credential-report'', d_report = None, trace = []\<rparr>
            = (Some (AwsError ''Throttling'' ''slow down''), s')
      \<and> d_report s' = None \<and> get_calls s' = 2)"
proof -
  let ?s = "\<lparr>d_id = ''iam-credential-report'', d_report = None, trace = []\<rparr>"
  let ?content = "''user,mfa_active'' @ [NL] @ ''alice,true'' @ [NL]"
  let ?devices = "[''arn:aws:iam::123456789012:mfa/alice'']"
  let ?c1 = "\<lparr>GenerateCredentialReport = None,
           GetCredentialReport = (\<lambda>n. if n < 2 then Inl (AwsError ''ReportInProgress'' ''busy'')
                                      else Inr ?content),
           ListVirtualMFADevices = Inr ?devices\<rparr>"
  let ?c2 = "\<lparr>GenerateCredentialReport = None,
           GetCredentialReport = (\<lambda>n. Inl (AwsError ''ReportInProgress'' ''busy'')),
           ListVirtualMFADevices = Inr []\<rparr>"
  let ?c3 = "\<lparr>GenerateCredentialReport = None,
           GetCredentialReport = (\<lambda>n. if n < 1 then Inl (AwsError ''ReportInProgress'' ''busy'')
                                      else Inl (AwsError ''Throttling'' ''slow down'')),
           ListVirtualMFADevices = Inr []\<rparr>"
  have g0: "get_calls ?s = 0" by (simp add: get_calls_def)
  have "\<not> isl (parseCsvCredentialReport ?content)" by code_simp
  then obtain report where p: "parseCsvCredentialReport ?content = Inr report"
    by (cases "parseCsvCredentialReport ?content") simp_all
  have "\<exists>s'. resourceAwsIamCredentialReportRead ?c1 5 ?s = (None, s')
      \<and> d_report s' = Some (flattenCredentialReport (extend_loop (mfa_loop ?devices Map.empty) report))
      \<and> get_calls s' = get_calls ?s + 2 + 1"
    using read_polls_until_ready[of ?c1 2 ?s 5 ?content report ?devices] p g0 by simp
  with p g0 have one: "\<exists>s' report. parseCsvCredentialReport ?content = Inr report
      \<and> resourceAwsIamCredentialReportRead ?c1 5 ?s = (None, s')
      \<and> d_report s' = Some (flattenCredentialReport (extend_loop (mfa_loop ?devices Map.empty) report))
      \<and> get_calls s' = 3"
    by auto
  have two: "\<exists>s'. resourceAwsIamCredentialReportRead ?c2 4 ?s = (Some TimeoutError, s')
      \<and> d_report s' = None \<and> get_calls s' = 4"
    using read_polls_until_ready[of ?c2 4 ?s 4] g0 by simp
  have three: "\<exists>s'. resourceAwsIamCredentialReportRead ?c3 4 ?s
            = (Some (AwsError ''Throttling'' ''slow down''), s')
      \<and> d_report s' = None \<and> get_calls s' = 2"
    using read_polls_until_ready[of ?c3 1 ?s 4 _ _ _ "AwsError ''Throttling'' ''slow down''"] g0
    by (simp add: numeral_2_eq_2)
  from one two three show ?thesis by blast
qed

lemma report_writes_append [simp]:
  "report_writes (es @ es') = report_writes es @ report_writes es'"
  by (induction es rule: report_writes.induct) simp_all

lemma outcome_Some [simp]:
  "outcome iamconn (Some e) s s' events
     \<longleftrightarrow> d_report s' = d_report s \<and> report_writes events = []"
  by (simp add: outcome_def)

lemma outcome_prepend:
  assumes "outcome iamconn result s1 s' ev2" and "d_report s1 = d_report s"
    and "report_writes ev1 = []"
  shows "outcome iamconn result s s' (ev1 @ ev2)"
proof (cases result)
  case None
  with assms(1) obtain flat where f: "served iamconn flat" "d_report s' = Some flat"
    "report_writes ev2 = [flat]" "last ev2 = Set_report flat"
    by (auto simp: outcome_def)
  from f(3) have "ev2 \<noteq> []" by auto
  then have "last (ev1 @ ev2) = last ev2" by simp
  with f assms(3) None show ?thesis by (auto simp: outcome_def)
next
  case (Some e)
  with assms show ?thesis by simp
qed

lemma attempt_frame:
  assumes "attempt iamconn s = (r, s')"
  shows "d_id s' = d_id s
     \<and> (\<exists>events. trace s' = trace s @ events
          \<and> (case r of
                Some e \<Rightarrow> d_report s' = d_report s \<and> report_writes events = []
              | None \<Rightarrow> outcome iamconn None s s' events))"
proof (cases "GetCredentialReport iamconn (get_calls s)")
  case (Inl err)
  show ?thesis
  proof (cases "is_ReportInProgress err")
    case True
    from attempt_in_progress[OF Inl True] assms show ?thesis by auto
  next
    case False
    from attempt_get_error[OF Inl False] assms show ?thesis by auto
  qed
next
  case (Inr content)
  show ?thesis
  proof (cases "parseCsvCredentialReport content")
    case (Inl err)
    from attempt_parse_error[OF Inr Inl] assms show ?thesis by auto
  next
    case parsed: (Inr report)
    show ?thesis
    proof (cases "ListVirtualMFADevices iamconn")
      case (Inl err)
      from attempt_mfa_error[OF Inr parsed Inl] assms show ?thesis by auto
    next
      case listed: (Inr devices)
      let ?flat = "flattenCredentialReport (extend_loop (mfa_loop devices Map.empty) report)"
      have sv: "served iamconn ?flat"
        unfolding served_def using Inr parsed listed by blast
      from attempt_success[OF Inr parsed listed refl] assms
      have r: "r = None" and s': "s' = (emit (Set_report ?flat)
           (emit Call_ListVirtualMFADevices (emit Call_GetCredentialReport s)))
          \<lparr>d_report := Some ?flat\<rparr>"
        by simp_all
      have "trace s' = trace s @ [Call_GetCredentialReport, Call_ListVirtualMFADevices, Set_report ?flat]"
        by (simp add: s')
      moreover have "outcome iamconn None s s'
          [Call_GetCredentialReport, Call_ListVirtualMFADevices, Set_report ?flat]"
        using sv by (auto simp: outcome_def s')
      moreover have "d_id s' = d_id s" by (simp add: s')
      ultimately show ?thesis using r by auto
    qed
  qed
qed

lemma Retry_frame:
  "Retry timeout (attempt iamconn) s = (result, s') \<Longrightarrow>
   d_id s' = d_id s \<and> (\<exists>events. trace s' = trace s @ events \<and> outcome iamconn result s s' events)"
proof (induction timeout arbitrary: s)
  case 0
  then show ?case by auto
next
  case (Suc timeout)
  obtain r s1 where att: "attempt iamconn s = (r, s1)" by (cases "attempt iamconn s")
  note fr = attempt_frame[OF att]
  show ?case
  proof (cases r)
    case None
    with att Suc.prems have "result = None" "s' = s1" by simp_all
    with fr None show ?thesis by auto
  next
    case (Some re)
    from fr Some obtain ev1 where id1: "d_id s1 = d_id s" and tr1: "trace s1 = trace s @ ev1"
      and rp1: "d_report s1 = d_report s" and w1: "report_writes ev1 = []"
      by auto
    show ?thesis
    proof (cases re)
      case (NonRetryableError err)
      with att Some Suc.prems have "result = Some err" "s' = s1" by simp_all
      with id1 tr1 rp1 w1 show ?thesis by auto
    next
      case (RetryableError err)
      with att Some Suc.prems have "Retry timeout (attempt iamconn) s1 = (result, s')"
        by simp
      from Suc.IH[OF this] obtain ev2 where id2: "d_id s' = d_id s1"
        and tr2: "trace s' = trace s1 @ ev2"
        and c2: "outcome iamconn result s1 s' ev2"
        by blast
      have tr: "trace s' = trace s @ (ev1 @ ev2)" using tr1 tr2 by simp
      from outcome_prepend[OF c2 rp1 w1] id1 id2 tr show ?thesis by auto
    qed
  qed
qed

lemma Read_frame:
  assumes "resourceAwsIamCredentialReportRead iamconn timeout s = (result, s')"
  shows "d_id s' = d_id s"
    and "\<exists>events. trace s' = trace s @ events \<and> outcome iamconn result s s' events"
    and "result = None \<Longrightarrow> GenerateCredentialReport iamconn = None"
    and "GenerateCredentialReport iamconn = Some err \<Longrightarrow> result = Some err"
proof -
  let ?s1 = "emit Call_GenerateCredentialReport s"
  show "GenerateCredentialReport iamconn = Some err \<Longrightarrow> result = Some err"
    using assms by (simp add: resourceAwsIamCredentialReportRead_def)
  show "result = None \<Longrightarrow> GenerateCredentialReport iamconn = None"
    using assms by (cases "GenerateCredentialReport iamconn")
      (simp_all add: resourceAwsIamCredentialReportRead_def)
  show "d_id s' = d_id s"
  proof (cases "GenerateCredentialReport iamconn")
    case None
    with assms have "Retry timeout (attempt iamconn) ?s1 = (result, s')"
      by (simp add: Read_generate_ok)
    from Retry_frame[OF this] show ?thesis by simp
  next
    case (Some e)
    with assms show ?thesis by (auto simp: resourceAwsIamCredentialReportRead_def)
  qed
  show "\<exists>events. trace s' = trace s @ events \<and> outcome iamconn result s s' events"
  proof (cases "GenerateCredentialReport iamconn")
    case None
    with assms have "Retry timeout (attempt iamconn) ?s1 = (result, s')"
      by (simp add: Read_generate_ok)
    from Retry_frame[OF this] obtain ev where tr: "trace s' = trace ?s1 @ ev"
      and c: "outcome iamconn result ?s1 s' ev"
      by blast
    from outcome_prepend[OF c, of s "[Call_GenerateCredentialReport]"]
    have "outcome iamconn result s s' ([Call_GenerateCredentialReport] @ ev)" by simp
    moreover from tr have "trace s' = trace s @ ([Call_GenerateCredentialReport] @ ev)" by simp
    ultimately show ?thesis by blast
  next
    case (Some e)
    with assms have "result = Some e" "s' = ?s1"
      by (simp_all add: resourceAwsIamCredentialReportRead_def)
    then have "trace s' = trace s @ [Call_GenerateCredentialReport]"
      "outcome iamconn result s s' [Call_GenerateCredentialReport]"
      by simp_all
    then show ?thesis by blast
  qed
qed

text \<open>
  C7: whatever the read returns, it leaves the id alone. When it returns an error, the
  field \<^verbatim>\<open>report\<close> is as before and the events of the read contain no write to it; an
  error of the trigger is returned as such. When it returns without error, the trigger,
  a \<^verbatim>\<open>GetCredentialReport\<close> call, the parser and \<^verbatim>\<open>ListVirtualMFADevices\<close> have all
  succeeded, the field holds the flattened, extended report, and the events of the read
  contain exactly one write to it, as their last event.
\<close>

theorem read_sets_report_only_on_success:
  assumes "resourceAwsIamCredentialReportRead iamconn timeout s = (result, s')"
  shows "d_id s' = d_id s
     \<and> (\<exists>events. trace s' = trace s @ events
          \<and> (case result of
                Some e \<Rightarrow> d_report s' = d_report s \<and> report_writes events = []
              | None \<Rightarrow>
                  (\<exists>n content report devices flat.
                     GenerateCredentialReport iamconn = None
                     \<and> GetCredentialReport iamconn n = Inr content
                     \<and> parseCsvCredentialReport content = Inr report
                     \<and> ListVirtualMFADevices iamconn = Inr devices
                     \<and> flat = flattenCredentialReport
                                (extend_loop (mfa_loop devices Map.empty) report)
                     \<and> d_report s' = Some flat
                     \<and> report_writes events = [flat]
                     \<and> last events = Set_report flat)))
     \<and> (GenerateCredentialReport iamconn = Some err \<longrightarrow> result = Some err)"
proof (intro conjI impI)
  note fr = Read_frame[OF assms]
  show "d_id s' = d_id s" by (rule fr(1))
  show "GenerateCredentialReport iamconn = Some err \<Longrightarrow> result = Some err" by (rule fr(4))
  from fr(2) obtain events where tr: "trace s' = trace s @ events"
    and oc: "outcome iamconn result s s' events" by blast
  have "case result of
                Some e \<Rightarrow> d_report s' = d_report s \<and> report_writes events = []
              | None \<Rightarrow>
                  (\<exists>n content report devices flat.
                     GenerateCredentialReport iamconn = None
                     \<and> GetCredentialReport iamconn n = Inr content
                     \<and> parseCsvCredentialReport content = Inr report
                     \<and> ListVirtualMFADevices iamconn = Inr devices
                     \<and> flat = flattenCredentialReport
                                (extend_loop (mfa_loop devices Map.empty) report)
                     \<and> d_report s' = Some flat
                     \<and> report_writes events = [flat]
                     \<and> last events = Set_report flat)"
  proof (cases result)
    case (Some e)
    with oc show ?thesis by simp
  next
    case None
    with oc obtain flat where "served iamconn flat" and f: "d_report s' = Some flat"
      "report_writes events = [flat]" "last events = Set_report flat"
      by (auto simp: outcome_def)
    then obtain n content report devices where
      "GetCredentialReport iamconn n = Inr content"
      "parseCsvCredentialReport content = Inr report"
      "ListVirtualMFADevices iamconn = Inr devices"
      "flat = flattenCredentialReport (extend_loop (mfa_loop devices Map.empty) report)"
      unfolding served_def by blast
    with f fr(3)[OF None] None show ?thesis by auto
  qed
  with tr show "\<exists>events. trace s' = trace s @ events
          \<and> (case result of
                Some e \<Rightarrow> d_report s' = d_report s \<and> report_writes events = []
              | None \<Rightarrow>
                  (\<exists>n content report devices flat.
                     GenerateCredentialReport iamconn = None
                     \<and> GetCredentialReport iamconn n = Inr content
                     \<and> parseCsvCredentialReport content = Inr report
                     \<and> ListVirtualMFADevices iamconn = Inr devices
                     \<and> flat = flattenCredentialReport
                                (extend_loop (mfa_loop devices Map.empty) report)
                     \<and> d_report s' = Some flat
                     \<and> report_writes events = [flat]
                     \<and> last events = Set_report flat))"
    by blast
qed

theorem read_sets_report_only_on_success_witness:
  "fst (resourceAwsIamCredentialReportRead
          \<lparr>GenerateCredentialReport = None,
           GetCredentialReport = (\<lambda>n. Inr (''user,mfa_active'' @ [NL] @ ''alice'' @ [NL])),
           ListVirtualMFADevices = Inr []\<rparr>
          3 \<lparr>d_id = ''iam-credential-report'', d_report = None, trace = []\<rparr>)
     = Some (CsvError ErrFieldCount)
   \<and> d_report (snd (resourceAwsIamCredentialReportRead
          \<lparr>GenerateCredentialReport = None,
           GetCredentialReport = (\<lambda>n. Inr (''user,mfa_active'' @ [NL] @ ''alice'' @ [NL])),
           ListVirtualMFADevices = Inr []\<rparr>
          3 \<lparr>d_id = ''iam-credential-report'', d_report = None, trace = []\<rparr>)) = None
   \<and> d_id (snd (resourceAwsIamCredentialReportRead
          \<lparr>GenerateCredentialReport = None,
           GetCredentialReport = (\<lambda>n. Inr (''user,mfa_active'' @ [NL] @ ''alice'' @ [NL])),
           ListVirtualMFADevices = Inr []\<rparr>
          3 \<lparr>d_id = ''iam-credential-report'', d_report = None, trace = []\<rparr>))
       = ''iam-credential-report''"
proof -
  define c where "c = \<lparr>GenerateCredentialReport = None,
           GetCredentialReport = (\<lambda>n::nat. (Inr (''user,mfa_active'' @ [NL] @ ''alice'' @ [NL])
              :: error + string)),
           ListVirtualMFADevices = (Inr [] :: error + string list)\<rparr>"
  define s where "s = \<lparr>d_id = ''iam-credential-report'', d_report = None, trace = []\<rparr>"
  obtain result s' where r: "resourceAwsIamCredentialReportRead c 3 s = (result, s')"
    by (cases "resourceAwsIamCredentialReportRead c 3 s")
  have res: "fst (resourceAwsIamCredentialReportRead c 3 s) = Some (CsvError ErrFieldCount)"
    unfolding c_def s_def by code_simp
  with r have result: "result = Some (CsvError ErrFieldCount)" by simp
  from read_sets_report_only_on_success[OF r] result
  have "d_id s' = d_id s" and "d_report s' = d_report s" by auto
  with r res show ?thesis unfolding c_def s_def by simp
qed

text \<open>
  C8: after create and after update the id of the resource is the constant
  \<^verbatim>\<open>iam-credential-report\<close>, whatever the service answers and whether or not the read
  succeeds; delete returns no error and the state it was given, with no event added to
  the trace.
\<close>

theorem update_sets_fixed_id:
  "d_id (snd (Create resourceAwsIamCredentialReport iamconn timeout s)) = ''iam-credential-report''
   \<and> d_id (snd (Update resourceAwsIamCredentialReport iamconn timeout s))
       = ''iam-credential-report''
   \<and> Delete resourceAwsIamCredentialReport iamconn timeout s = (None, s)"
proof -
  let ?s1 = "(emit (SetId ''iam-credential-report'') s)\<lparr>d_id := ''iam-credential-report''\<rparr>"
  obtain result s' where r: "resourceAwsIamCredentialReportRead iamconn timeout ?s1 = (result, s')"
    by (cases "resourceAwsIamCredentialReportRead iamconn timeout ?s1")
  from Read_frame(1)[OF r] have "d_id s' = ''iam-credential-report''" by simp
  with r have "d_id (snd (resourceAwsIamCredentialReportUpdate iamconn timeout s))
      = ''iam-credential-report''"
    by (simp add: resourceAwsIamCredentialReportUpdate_def)
  then show ?thesis
    by (simp add: resourceAwsIamCredentialReport_def resourceAwsIamCredentialReportDelete_def)
qed

theorem update_sets_fixed_id_witness:
  "d_id (snd (Update resourceAwsIamCredentialReport
            \<lparr>GenerateCredentialReport = Some (PlainError ''no route to host''),
             GetCredentialReport = (\<lambda>n. Inl (PlainError ''no route to host'')),
             ListVirtualMFADevices = Inl (PlainError ''no route to host'')\<rparr>
            3 \<lparr>d_id = [], d_report = None, trace = []\<rparr>)) = ''iam-credential-report''
   \<and> Delete resourceAwsIamCredentialReport
        \<lparr>GenerateCredentialReport = Some (PlainError ''no route to host''),
         GetCredentialReport = (\<lambda>n. Inl (PlainError ''no route to host'')),
         ListVirtualMFADevices = Inl (PlainError ''no route to host'')\<rparr>
        3 \<lparr>d_id = [], d_report = None, trace = []\<rparr>
       = (None, \<lparr>d_id = [], d_report = None, trace = []\<rparr>)"
  using update_sets_fixed_id[of
      "\<lparr>GenerateCredentialReport = Some (PlainError ''no route to host''),
        GetCredentialReport = (\<lambda>n. Inl (PlainError ''no route to host'')),
        ListVirtualMFADevices = Inl (PlainError ''no route to host'')\<rparr>"
      3 "\<lparr>d_id = [], d_report = None, trace = []\<rparr>"]
  by blast

section \<open>A header without a required column\<close>

text \<open>
  C1, as the code has it: a payload whose header lacks the column \<open>user\<close> is parsed
  without error; the user of the row is the first field of the record.
\<close>

theorem parse_without_user_column_succeeds:
  "parseCsvCredentialReport
     (''password_enabled,password_last_used,password_last_changed,mfa_active,access_key_1_active,access_key_1_last_used_date,access_key_1_last_rotated,access_key_2_active,access_key_2_last_used_date,access_key_2_last_rotated''
      @ [NL] @ ''true,no_information,2019-02-01T09:30:00+00:00,false,true,2019-02-20T12:00:00+00:00,2019-01-15T08:00:00+00:00,false,N/A,N/A''
      @ [NL])
   = Inr [\<lparr>User = ''true'', PasswordEnabled = True, PasswordLastUsed = ''no_information'',
            PasswordLastChanged = ''2019-02-01T09:30:00+00:00'', MfaActive = False,
            MfaVirtual = False,
            AccessKeys =
              [\<lparr>Active = True, LastUsedDate = ''2019-02-20T12:00:00+00:00'',
                LastRotated = ''2019-01-15T08:00:00+00:00''\<rparr>,
               \<lparr>Active = False, LastUsedDate = ''N/A'', LastRotated = ''N/A''\<rparr>]\<rparr>]"
  by code_simp

text \<open>
  C1, amended: \<open>parseCsvCredentialReport\<close> fails only with an error of the CSV reader, on
  the header record or on a later record. When the reader accepts the payload the parse
  succeeds with one row per record, whichever columns the header has; a column \<open>c\<close> that
  is missing from the header has index 0 and is read from the first field of every
  record. The read that gets such a payload, the trigger and the list of devices having
  succeeded, succeeds as well and stores these rows.
\<close>

theorem parse_missing_column_reads_first_field:
  "(parseCsvCredentialReport content = Inl err \<longrightarrow>
      (\<exists>e. err = CsvError e
         \<and> (csv_Read (csv_NewReader content) = Inl e
            \<or> (\<exists>headerLine reader. csv_Read (csv_NewReader content) = Inr (headerLine, reader)
                  \<and> csv_ReadAll reader = Inl e))))
   \<and> (csv_Read (csv_NewReader content) = Inr (headerLine, reader)
       \<and> csv_ReadAll reader = Inr lines \<and> c \<notin> set headerLine \<longrightarrow>
         parseCsvCredentialReport content
           = Inr (map (decodeLine (header_loop 0 headerLine Map.empty)) lines)
         \<and> header_index (header_loop 0 headerLine Map.empty) c = 0
         \<and> list_all (\<lambda>line. column (header_loop 0 headerLine Map.empty) line c = Inr (line ! 0))
              lines
         \<and> (GenerateCredentialReport iamconn = None
            \<and> GetCredentialReport iamconn (get_calls s) = Inr content
            \<and> ListVirtualMFADevices iamconn = Inr devices \<and> 0 < timeout \<longrightarrow>
              (\<exists>s'. resourceAwsIamCredentialReportRead iamconn timeout s = (None, s')
                 \<and> d_report s'
                     = Some (flattenCredentialReport
                         (extend_loop (mfa_loop devices Map.empty)
                            (map (decodeLine (header_loop 0 headerLine Map.empty)) lines))))))"
proof (intro conjI impI)
  assume "parseCsvCredentialReport content = Inl err"
  then show "\<exists>e. err = CsvError e
         \<and> (csv_Read (csv_NewReader content) = Inl e
            \<or> (\<exists>headerLine reader. csv_Read (csv_NewReader content) = Inr (headerLine, reader)
                  \<and> csv_ReadAll reader = Inl e))"
    by (rule parse_Inl_reader)
next
  assume a: "csv_Read (csv_NewReader content) = Inr (headerLine, reader)
       \<and> csv_ReadAll reader = Inr lines \<and> c \<notin> set headerLine"
  then have rd: "csv_Read (csv_NewReader content) = Inr (headerLine, reader)"
    and all: "csv_ReadAll reader = Inr lines" and c: "c \<notin> set headerLine"
    by simp_all
  note s = parse_reader_success[OF rd all]
  from s(1) show p: "parseCsvCredentialReport content
           = Inr (map (decodeLine (header_loop 0 headerLine Map.empty)) lines)" .
  from c show zero: "header_index (header_loop 0 headerLine Map.empty) c = 0"
    by (rule header_index_absent)
  from s(2,3) zero
  show "list_all (\<lambda>line. column (header_loop 0 headerLine Map.empty) line c = Inr (line ! 0)) lines"
    by (induction lines) (auto simp: column_def)
  assume b: "GenerateCredentialReport iamconn = None
            \<and> GetCredentialReport iamconn (get_calls s) = Inr content
            \<and> ListVirtualMFADevices iamconn = Inr devices \<and> 0 < timeout"
  then obtain t where t: "timeout = Suc t" by (cases timeout) simp_all
  let ?s1 = "emit Call_GenerateCredentialReport s"
  let ?flat = "flattenCredentialReport (extend_loop (mfa_loop devices Map.empty)
                 (map (decodeLine (header_loop 0 headerLine Map.empty)) lines))"
  from b have get: "GetCredentialReport iamconn (get_calls ?s1) = Inr content" by simp
  from b have lst: "ListVirtualMFADevices iamconn = Inr devices" by simp
  note att = attempt_success[OF get p lst refl]
  from b have "resourceAwsIamCredentialReportRead iamconn timeout s
      = Retry timeout (attempt iamconn) ?s1"
    by (simp add: Read_generate_ok)
  with att t
  show "\<exists>s'. resourceAwsIamCredentialReportRead iamconn timeout s = (None, s')
                 \<and> d_report s' = Some ?flat"
    by simp
qed

theorem parse_missing_column_reads_first_field_witness:
  "parseCsvCredentialReport (''password_enabled,mfa_active'' @ [NL] @ ''true,false'' @ [NL])
     = Inr (map (decodeLine (header_loop 0 [''password_enabled'', ''mfa_active''] Map.empty))
              [[''true'', ''false'']])
   \<and> header_index (header_loop 0 [''password_enabled'', ''mfa_active''] Map.empty) ''user'' = 0
   \<and> column (header_loop 0 [''password_enabled'', ''mfa_active''] Map.empty)
        [''true'', ''false''] ''user'' = Inr ''true''
   \<and> (\<exists>s'. resourceAwsIamCredentialReportRead
          \<lparr>GenerateCredentialReport = None,
           GetCredentialReport =
             (\<lambda>n. Inr (''password_enabled,mfa_active'' @ [NL] @ ''true,false'' @ [NL])),
           ListVirtualMFADevices = Inr []\<rparr>
          1 \<lparr>d_id = ''iam-credential-report'', d_report = None, trace = []\<rparr> = (None, s')
        \<and> d_report s' = Some (flattenCredentialReport (extend_loop (mfa_loop [] Map.empty)
             (map (decodeLine (header_loop 0 [''password_enabled'', ''mfa_active''] Map.empty))
                [[''true'', ''false'']]))))"
proof -
  let ?content = "''password_enabled,mfa_active'' @ [NL] @ ''true,false'' @ [NL]"
  let ?reader = "\<lparr>unread = ''true,false'' @ [NL], FieldsPerRecord = 2\<rparr>"
  let ?c = "\<lparr>GenerateCredentialReport = None,
           GetCredentialReport = (\<lambda>n::nat. (Inr ?content :: error + string)),
           ListVirtualMFADevices = (Inr [] :: error + string list)\<rparr>"
  let ?s = "\<lparr>d_id = ''iam-credential-report'', d_report = None, trace = []\<rparr>"
  have rd: "csv_Read (csv_NewReader ?content) = Inr ([''password_enabled'', ''mfa_active''], ?reader)"
    by code_simp
  have all: "csv_ReadAll ?reader = Inr [[''true'', ''false'']]"
    by code_simp
  have c: "''user'' \<notin> set [''password_enabled'', ''mfa_active'']"
    by simp
  from parse_missing_column_reads_first_field[of ?content _ "[''password_enabled'', ''mfa_active'']"
      ?reader "[[''true'', ''false'']]" "''user''" ?c ?s "[]" 1] rd all c
  show ?thesis by simp
qed

end
